theory Spec2Isabelle
  imports Main
begin

section \<open>The static-site generator of \<open>lib/builder/generator.js\<close>\<close>

text \<open>
  The development embeds \<open>Generator.generate\<close> (\<open>src/lib/builder/generator.js\<close>): the
  route merger, the callback run for each route, the batch loop and the function as a
  whole, whose preparatory steps (lines 32--49) appear as one call that may fail.
  JavaScript values, the plain object used as a route map, and the functions \<open>join\<close> and
  \<open>sep\<close> of Node's \<open>path\<close> module (POSIX flavour) are modelled first, since the
  generator's behaviour depends on them.
\<close>

subsection \<open>JavaScript values\<close>

text \<open>
  Payloads, in-band render errors and thrown values are arbitrary JavaScript values.
  Numbers are restricted to integers; \<open>JError msg\<close> is an \<open>Error\<close> object with message
  \<open>msg\<close>; \<open>JObject n\<close> is any other object (always truthy), identified by \<open>n\<close>.
\<close>

datatype jsval =
    JUndefined
  | JNull
  | JBool bool
  | JNum int
  | JStr string
  | JError string
  | JObject nat

fun truthy :: "jsval \<Rightarrow> bool" where
  "truthy JUndefined = False"
| "truthy JNull = False"
| "truthy (JBool b) = b"
| "truthy (JNum n) = (n \<noteq> 0)"
| "truthy (JStr s) = (s \<noteq> [])"
| "truthy (JError m) = True"
| "truthy (JObject n) = True"

text \<open>The operator \<open>a || b\<close>.\<close>

definition js_or :: "jsval \<Rightarrow> jsval \<Rightarrow> jsval" where
  "js_or a b = (if truthy a then a else b)"

subsection \<open>Plain objects with string keys\<close>

text \<open>
  \<open>routeMap\<close> is a plain object \<open>{}\<close> keyed by route strings. An object is modelled by
  its own properties in creation order. Assigning \<open>obj[k] = v\<close> overwrites an existing
  property in place and creates a new one at the end; the key \<open>__proto__\<close> is the
  accessor inherited from \<open>Object.prototype\<close>, so assigning an object to it changes the
  prototype and creates no own property.

  \<open>_.values\<close> reads the values in the order of \<open>Object.keys\<close>: the keys that are array
  indices (canonical decimal numerals below \<open>2^32 - 1\<close>) come first in ascending numeric
  order, the remaining keys follow in creation order.
\<close>

type_synonym 'v js_object = "(string \<times> 'v) list"

fun upsert :: "'v js_object \<Rightarrow> string \<Rightarrow> 'v \<Rightarrow> 'v js_object" where
  "upsert [] k v = [(k, v)]"
| "upsert ((k', v') # m) k v = (if k' = k then (k, v) # m else (k', v') # upsert m k v)"

definition obj_assign :: "'v js_object \<Rightarrow> string \<Rightarrow> 'v \<Rightarrow> 'v js_object" where
  "obj_assign m k v = (if k = ''__proto__'' then m else upsert m k v)"

definition is_digit :: "char \<Rightarrow> bool" where
  "is_digit c = (c \<in> set ''0123456789'')"

definition digit_val :: "char \<Rightarrow> nat" where
  "digit_val c = of_char c - 48"

definition index_value :: "string \<Rightarrow> nat" where
  "index_value s = foldl (\<lambda>n c. 10 * n + digit_val c) 0 s"

definition is_array_index :: "string \<Rightarrow> bool" where
  "is_array_index s =
     (s \<noteq> [] \<and> list_all is_digit s \<and> (s = ''0'' \<or> hd s \<noteq> CHR ''0'')
      \<and> index_value s < 4294967295)"

definition own_entries :: "'v js_object \<Rightarrow> 'v js_object" where
  "own_entries m =
     sort_key (\<lambda>p. index_value (fst p)) (filter (\<lambda>p. is_array_index (fst p)) m)
     @ filter (\<lambda>p. \<not> is_array_index (fst p)) m"

definition js_values :: "'v js_object \<Rightarrow> 'v list" where
  "js_values m = map snd (own_entries m)"

subsection \<open>The route merger \<open>decorateWithPayloads\<close>\<close>

text \<open>
  An element of \<open>generateRoutes\<close> is a string or an object \<open>{route, payload}\<close>; a missing
  \<open>payload\<close> field reads as \<open>undefined\<close>, as does \<open>.payload\<close> of a string.
\<close>

datatype route_item = ItemString string | ItemObject string jsval

fun item_path :: "route_item \<Rightarrow> string" where
  "item_path (ItemString s) = s"
| "item_path (ItemObject r p) = r"

fun item_payload :: "route_item \<Rightarrow> jsval" where
  "item_payload (ItemString s) = JUndefined"
| "item_payload (ItemObject r p) = p"

record route_spec =
  route :: string
  payload :: jsval

text \<open>
  Lines 63--82. The first \<open>forEach\<close> fills the map from the static routes, the second
  one from \<open>generateRoutes\<close>, which the closure captures.
\<close>

definition decorateWithPayloads :: "route_item list \<Rightarrow> string list \<Rightarrow> route_spec list" where
  "decorateWithPayloads generateRoutes routes =
     (let routeMap = fold (\<lambda>r m. obj_assign m r \<lparr>route = r, payload = JNull\<rparr>) routes [];
          routeMap' = fold (\<lambda>it m. obj_assign m (item_path it)
                        \<lparr>route = item_path it, payload = js_or (item_payload it) JNull\<rparr>)
                        generateRoutes routeMap
      in js_values routeMap')"

subsection \<open>The functions of Node's \<open>path\<close> module\<close>

text \<open>
  \<open>join\<close>, \<open>sep\<close> and \<open>normalize\<close> belong to Node's standard library, not to the
  repository. They are modelled after the POSIX implementation: \<open>join\<close> drops its empty
  arguments, glues the others with \<open>/\<close> and normalizes the result; \<open>normalize\<close> walks the
  segments between separators, skipping empty segments and \<open>.\<close>, and resolving \<open>..\<close>
  against the segments kept so far (a relative path may climb above its start, an
  absolute one may not climb above the root).
\<close>

definition path_sep :: string where
  "path_sep = ''/''"

fun split_sep :: "string \<Rightarrow> string list" where
  "split_sep [] = [[]]"
| "split_sep (c # cs) =
     (if c = CHR ''/'' then [] # split_sep cs
      else (case split_sep cs of [] \<Rightarrow> [[c]] | s # ss \<Rightarrow> (c # s) # ss))"

fun join_sep :: "string list \<Rightarrow> string" where
  "join_sep [] = []"
| "join_sep [s] = s"
| "join_sep (s # t # ss) = s @ ''/'' @ join_sep (t # ss)"

definition normalize_step :: "bool \<Rightarrow> string list \<Rightarrow> string \<Rightarrow> string list" where
  "normalize_step allowAboveRoot res seg =
     (if seg = [] \<or> seg = ''.'' then res
      else if seg = ''..'' then
        (if res \<noteq> [] \<and> last res \<noteq> ''..'' then butlast res
         else if allowAboveRoot then res @ [''..'']
         else res)
      else res @ [seg])"

definition normalizeString :: "string \<Rightarrow> bool \<Rightarrow> string" where
  "normalizeString path allowAboveRoot =
     join_sep (foldl (normalize_step allowAboveRoot) [] (split_sep path))"

definition path_normalize :: "string \<Rightarrow> string" where
  "path_normalize path =
     (if path = [] then ''.''
      else
        let isAbsolute = (hd path = CHR ''/'');
            trailingSeparator = (last path = CHR ''/'');
            p = normalizeString path (\<not> isAbsolute)
        in if p = [] then (if isAbsolute then ''/'' else if trailingSeparator then ''./'' else ''.'')
           else (if isAbsolute then ''/'' else []) @ p @ (if trailingSeparator then ''/'' else []))"

definition path_join :: "string list \<Rightarrow> string" where
  "path_join args =
     (let parts = filter (\<lambda>a. a \<noteq> []) args
      in if parts = [] then ''.'' else path_normalize (join_sep parts))"

subsection \<open>The environment and the effects of a run\<close>

text \<open>A call that may throw (or a promise that may reject) yields an outcome.\<close>

datatype 'a outcome = Throws jsval | Returns 'a

text \<open>The object the renderer resolves to: \<open>res.html\<close> and \<open>res.error\<close>.\<close>

record render_result =
  html :: string
  error :: jsval

text \<open>
  Everything \<open>generate\<close> reads from outside: the options, and the results of the
  external calls it makes.
  \<^item> \<open>prepare\<close>: lines 32--49, the awaited readiness, build, \<open>remove\<close> and \<open>copy\<close> steps,
    any of which may reject;
  \<^item> \<open>router_mode\<close>: \<open>options.router.mode\<close>;
  \<^item> \<open>flatRoutes\<close>: the value of \<open>flatRoutes(options.router.routes)\<close>;
  \<^item> \<open>promisifyRoute\<close>: the outcome of \<open>await promisifyRoute(options.generate.routes || [])\<close>;
  \<^item> \<open>generate_minify\<close>: \<open>options.generate.minify\<close>;
  \<^item> \<open>distPath\<close>: the resolved output root;
  \<^item> \<open>renderRoute\<close>: the outcome of \<open>nuxt.renderer.renderRoute(route, {_generate: true, payload})\<close>;
  \<^item> \<open>minify\<close>: the outcome of \<open>minify(html, options.generate.minify)\<close>;
  \<^item> \<open>stringify\<close>: the outcome of \<open>JSON.stringify(error)\<close> as line 133 appends it: the text,
    or what is thrown (for a circular structure, say);
  \<^item> \<open>stack_text\<close>: the outcome of reading \<open>error.stack\<close> of an object into the text of
    line 131;
  \<^item> \<open>typeError\<close>: the \<open>TypeError\<close> the engine throws when a property of \<open>null\<close> or
    \<open>undefined\<close> is read (its message depends on the engine).
\<close>

record env =
  prepare :: "unit outcome"
  router_mode :: string
  flatRoutes :: "string list"
  promisifyRoute :: "route_item list outcome"
  generate_minify :: jsval
  distPath :: string
  renderRoute :: "string \<Rightarrow> jsval \<Rightarrow> render_result outcome"
  minify :: "string \<Rightarrow> string outcome"
  stringify :: "jsval \<Rightarrow> string outcome"
  stack_text :: "jsval \<Rightarrow> string outcome"
  typeError :: jsval

datatype failure_type = Handled | Unhandled

text \<open>An element of \<open>errors\<close>: \<open>{type, route, error}\<close>.\<close>

record failure =
  ftype :: failure_type
  froute :: string
  ferror :: jsval

text \<open>A call \<open>writeFile(path, html, 'utf8')\<close>, tagged with the route whose callback made it.\<close>

record write_call =
  by_route :: string
  wfile :: string
  wcontent :: string

text \<open>
  What happens inside the batch loop, in order: a batch is handed to \<open>Promise.all\<close>, the
  renderer is called, a file is written.
\<close>

datatype event =
    BatchStart "route_spec list"
  | RenderCall string jsval
  | WriteCall write_call

text \<open>
  The state of a run: the array \<open>errors\<close>, and logs of the external calls made so far:
  the \<open>promisifyRoute\<close> calls, the members of each \<open>Promise.all\<close> batch, the
  \<open>renderRoute\<close> calls with their arguments, the awaited \<open>writeFile\<close> calls, and the
  \<open>writeFile\<close> calls whose promise is dropped. The \<open>trace\<close> holds the batches, render
  calls and awaited writes as one sequence, in the order they happen.

  The members of a batch run interleaved; the model runs them in list order. The records a
  member pushes are pushed without an intervening \<open>await\<close>, so the records and writes of
  one route are the same under every interleaving. The delay \<open>waitFor\<close>, the \<open>debug\<close>
  output and \<open>mkdirp\<close> are not logged, and \<open>mkdirp\<close> and \<open>writeFile\<close> are taken to
  succeed.
\<close>

record gen_state =
  errors :: "failure list"
  resolved :: nat
  batches :: "route_spec list list"
  rendered :: "(string \<times> jsval) list"
  written :: "write_call list"
  unawaited :: "(string \<times> string) list"
  trace :: "event list"

definition init_state :: gen_state where
  "init_state = \<lparr>errors = [], resolved = 0, batches = [], rendered = [], written = [],
                 unawaited = [], trace = []\<rparr>"

definition push_error :: "failure \<Rightarrow> gen_state \<Rightarrow> gen_state" where
  "push_error f s = s\<lparr>errors := errors s @ [f]\<rparr>"

subsection \<open>One route\<close>

text \<open>Line 107: the message of the wrapping error.\<close>

definition minify_message :: "string \<Rightarrow> string" where
  "minify_message h =
     ''HTML minification failed. Make sure the route generates valid HTML. Failed HTML:''
     @ [CHR 0x0A] @ '' '' @ h"

text \<open>Lines 111--113: the file a route is written to.\<close>

definition out_path :: "string \<Rightarrow> string \<Rightarrow> string" where
  "out_path dist r = path_join [dist, path_join [r, path_sep, ''index.html'']]"

text \<open>Lines 90--117: the callback mapped over a batch.\<close>

definition generate_route :: "env \<Rightarrow> route_spec \<Rightarrow> gen_state \<Rightarrow> gen_state" where
  "generate_route e r s =
     (let s1 = s\<lparr>rendered := rendered s @ [(route r, payload r)],
                  trace := trace s @ [RenderCall (route r) (payload r)]\<rparr> in
      case renderRoute e (route r) (payload r) of
        Throws err \<Rightarrow> push_error \<lparr>ftype = Unhandled, froute = route r, ferror = err\<rparr> s1
      | Returns res \<Rightarrow>
          let s2 = (if truthy (error res)
                    then push_error \<lparr>ftype = Handled, froute = route r, ferror = error res\<rparr> s1
                    else s1);
              (s3, h) =
                (if truthy (generate_minify e) then
                   (case minify e (html res) of
                      Returns h' \<Rightarrow> (s2, h')
                    | Throws err \<Rightarrow>
                        (push_error \<lparr>ftype = Unhandled, froute = route r,
                                     ferror = JError (minify_message (html res))\<rparr> s2,
                         html res))
                 else (s2, html res));
              w = \<lparr>by_route = route r, wfile = out_path (distPath e) (route r), wcontent = h\<rparr>
          in s3\<lparr>written := written s3 @ [w], trace := trace s3 @ [WriteCall w]\<rparr>)"

subsection \<open>The batch loop and \<open>generate\<close>\<close>

text \<open>
  Lines 88--118: \<open>while (routes.length)\<close> with \<open>routes.splice(0, 500)\<close>. The loop awaits
  \<open>Promise.all\<close> of a batch, so every member of the batch has run to its end when the
  loop takes the next batch.
\<close>

function generate_loop :: "env \<Rightarrow> route_spec list \<Rightarrow> gen_state \<Rightarrow> gen_state" where
  "generate_loop e routes s =
     (if routes = [] then s
      else generate_loop e (drop 500 routes)
             (fold (generate_route e) (take 500 routes)
                (s\<lparr>batches := batches s @ [take 500 routes],
                   trace := trace s @ [BatchStart (take 500 routes)]\<rparr>)))"
  by pat_completeness auto
termination
  by (relation "measure (\<lambda>(e, routes, s). length routes)") auto

declare generate_loop.simps [simp del]

text \<open>
  Lines 52--61: unless the mode is \<open>hash\<close>, \<open>generateRoutes\<close> is the resolved
  \<open>generate.routes\<close>; it keeps its initial value \<open>[]\<close> otherwise.
\<close>

definition resolve_routes :: "env \<Rightarrow> gen_state \<Rightarrow> route_item list outcome \<times> gen_state" where
  "resolve_routes e s =
     (if router_mode e \<noteq> ''hash''
      then (promisifyRoute e, s\<lparr>resolved := Suc (resolved s)\<rparr>)
      else (Returns [], s))"

text \<open>Lines 85--86: the work list.\<close>

definition merged_routes :: "env \<Rightarrow> route_item list \<Rightarrow> route_spec list" where
  "merged_routes e generateRoutes =
     decorateWithPayloads generateRoutes
       (if router_mode e = ''hash'' then [''/''] else flatRoutes e)"

text \<open>
  Lines 127--137: the error report. Line 131 reads \<open>error.stack\<close>, which throws for
  \<open>null\<close> and \<open>undefined\<close> and is \<open>undefined\<close> for the other primitive values; line 133
  calls \<open>JSON.stringify\<close>, which may throw. \<open>errors.map\<close> stops at the first exception.
\<close>

definition error_stack :: "env \<Rightarrow> jsval \<Rightarrow> string outcome" where
  "error_stack e err =
     (case err of
        JUndefined \<Rightarrow> Throws (typeError e)
      | JNull \<Rightarrow> Throws (typeError e)
      | JBool b \<Rightarrow> Returns ''undefined''
      | JNum n \<Rightarrow> Returns ''undefined''
      | JStr t \<Rightarrow> Returns ''undefined''
      | JError m \<Rightarrow> stack_text e err
      | JObject n \<Rightarrow> stack_text e err)"

definition report_line :: "env \<Rightarrow> failure \<Rightarrow> string outcome" where
  "report_line e f =
     (if ftype f = Unhandled then
        (case error_stack e (ferror f) of
           Throws x \<Rightarrow> Throws x
         | Returns st \<Rightarrow> Returns (''Route: '' @ [CHR 0x27] @ froute f @ [CHR 0x27, CHR 0x0A] @ st))
      else
        (case stringify e (ferror f) of
           Throws x \<Rightarrow> Throws x
         | Returns js \<Rightarrow>
             Returns (''Route: '' @ [CHR 0x27] @ froute f @ [CHR 0x27]
                      @ '' thrown an error: '' @ [CHR 0x0A] @ js)))"

fun report_lines :: "env \<Rightarrow> failure list \<Rightarrow> string list outcome" where
  "report_lines e [] = Returns []"
| "report_lines e (f # fs) =
     (case report_line e f of
        Throws x \<Rightarrow> Throws x
      | Returns l \<Rightarrow>
          (case report_lines e fs of
             Throws x \<Rightarrow> Throws x
           | Returns ls \<Rightarrow> Returns (l # ls)))"

text \<open>
  Lines 20--139. The result is the outcome of the promise \<open>generate\<close> returns (the
  \<open>errors\<close> of the report; the wall-clock \<open>duration\<close> is left out) with the final state.
  The text of the error report goes to the console and is not kept, but an exception
  while it is built rejects the promise. The marker file is written by a \<open>writeFile\<close>
  whose promise is dropped; its path \<open>resolve(distPath, '.nojekyll')\<close> is the \<open>join\<close> of the
  two for the absolute \<open>distPath\<close>.
\<close>

definition generate :: "env \<Rightarrow> failure list outcome \<times> gen_state" where
  "generate e =
     (case prepare e of
        Throws x \<Rightarrow> (Throws x, init_state)
      | Returns u \<Rightarrow>
          (case resolve_routes e init_state of
             (Throws x, s0) \<Rightarrow> (Throws x, s0)
           | (Returns generateRoutes, s0) \<Rightarrow>
               let s1 = generate_loop e (merged_routes e generateRoutes) s0;
                   s2 = s1\<lparr>unawaited := unawaited s1 @
                           [(path_join [distPath e, ''.nojekyll''], [])]\<rparr>
               in (case (if errors s2 = [] then Returns [] else report_lines e (errors s2)) of
                     Throws x \<Rightarrow> (Throws x, s2)
                   | Returns report \<Rightarrow> (Returns (errors s2), s2))))"

section \<open>Auxiliary definitions\<close>

text \<open>
  What one route contributes to \<open>errors\<close> and to the log of writes: the callback run
  from the initial state.
\<close>

definition route_errors :: "env \<Rightarrow> route_spec \<Rightarrow> failure list" where
  "route_errors e r = errors (generate_route e r init_state)"

definition route_writes :: "env \<Rightarrow> route_spec \<Rightarrow> write_call list" where
  "route_writes e r = written (generate_route e r init_state)"

text \<open>
  The events of one route, and the trace of one batch: its start, then the events of its
  members.
\<close>

definition route_events :: "env \<Rightarrow> route_spec \<Rightarrow> event list" where
  "route_events e r = trace (generate_route e r init_state)"

definition batch_trace :: "env \<Rightarrow> route_spec list \<Rightarrow> event list" where
  "batch_trace e b = BatchStart b # concat (map (route_events e) b)"

text \<open>The successive slices of at most 500 elements of a list, in list order.\<close>

definition slices :: "'a list \<Rightarrow> 'a list list" where
  "slices xs = map (\<lambda>i. take 500 (drop (500 * i) xs)) [0..<(length xs + 499) div 500]"

text \<open>
  The elements of a list in the order of their first occurrence: what an insertion-ordered
  map keeps of a sequence of insertions.
\<close>

primrec first_occ :: "'a list \<Rightarrow> 'a list" where
  "first_occ [] = []"
| "first_occ (x # xs) = x # filter (\<lambda>y. y \<noteq> x) (first_occ xs)"

text \<open>
  The payload a path ends up with: \<open>null\<close> when no dynamic item names the path, otherwise
  \<open>payload || null\<close> of the last dynamic item that names it.
\<close>

definition merged_payload :: "route_item list \<Rightarrow> string \<Rightarrow> jsval" where
  "merged_payload generateRoutes p =
     (case filter (\<lambda>it. item_path it = p) generateRoutes of
        [] \<Rightarrow> JNull
      | it # its \<Rightarrow> js_or (item_payload (last (it # its))) JNull)"

text \<open>
  The keys an object keeps in creation order: neither an array index nor \<open>__proto__\<close>.
  Every path that begins with \<open>/\<close> is such a key.
\<close>

definition plain_key :: "string \<Rightarrow> bool" where
  "plain_key k = (\<not> is_array_index k \<and> k \<noteq> ''__proto__'')"

text \<open>The two passes over the route map.\<close>

definition static_map :: "string list \<Rightarrow> route_spec js_object" where
  "static_map routes = fold (\<lambda>r m. obj_assign m r \<lparr>route = r, payload = JNull\<rparr>) routes []"

definition merged_map :: "route_item list \<Rightarrow> string list \<Rightarrow> route_spec js_object" where
  "merged_map generateRoutes routes =
     fold (\<lambda>it m. obj_assign m (item_path it)
             \<lparr>route = item_path it, payload = js_or (item_payload it) JNull\<rparr>)
       generateRoutes (static_map routes)"

text \<open>
  Example environments. \<open>env_demo\<close> has the static routes \<open>/\<close> and \<open>/about\<close> and the
  dynamic route \<open>/x\<close>: rendering \<open>/x\<close> throws, rendering \<open>/about\<close> reports an in-band error,
  and the minifier removes blanks. In \<open>env_z\<close> and \<open>env_y\<close> the minifier throws on the
  single route; in \<open>env_y\<close> the renderer reports an in-band error as well.
\<close>

definition demo_render :: "string \<Rightarrow> jsval \<Rightarrow> render_result outcome" where
  "demo_render r p =
     (if r = ''/x'' then Throws (JError ''boom'')
      else if r = ''/about'' then Returns \<lparr>html = ''<h1> about'', error = JStr ''partial''\<rparr>
      else Returns \<lparr>html = ''<h1> home'', error = JNull\<rparr>)"

definition demo_minify :: "string \<Rightarrow> string outcome" where
  "demo_minify h = Returns (filter (\<lambda>c. c \<noteq> CHR '' '') h)"

definition env_demo :: env where
  "env_demo = \<lparr>prepare = Returns (), router_mode = ''history'',
                flatRoutes = [''/'', ''/about''],
                promisifyRoute = Returns [ItemObject ''/x'' (JNum 1)],
                generate_minify = JObject 0, distPath = ''/dist'',
                renderRoute = demo_render, minify = demo_minify,
                stringify = (\<lambda>v. Returns ''{}''), stack_text = (\<lambda>v. Returns ''Error''),
                typeError = JError ''TypeError''\<rparr>"


definition env_y :: env where
  "env_y = \<lparr>prepare = Returns (), router_mode = ''history'',
             flatRoutes = [''/y''], promisifyRoute = Returns [],
             generate_minify = JObject 0, distPath = ''/dist'',
             renderRoute = (\<lambda>r p. Returns \<lparr>html = ''<p>'', error = JObject 1\<rparr>),
             minify = (\<lambda>h. Throws (JError ''Parse Error'')),
             stringify = (\<lambda>v. Returns ''{}''), stack_text = (\<lambda>v. Returns ''Error''),
             typeError = JError ''TypeError''\<rparr>"

text \<open>\<open>env_demo\<close> in hash mode, and with a route resolution that fails.\<close>

definition env_hash :: env where
  "env_hash = env_demo\<lparr>router_mode := ''hash''\<rparr>"

definition env_offline :: env where
  "env_offline = env_demo\<lparr>promisifyRoute := Throws (JError ''offline'')\<rparr>"




text \<open>
  The segments of a path that normalization keeps when none of them is \<open>..\<close>: the
  non-empty ones other than \<open>.\<close>.
\<close>

definition kept :: "string \<Rightarrow> string list" where
  "kept q = filter (\<lambda>s. s \<noteq> [] \<and> s \<noteq> ''.'') (split_sep q)"

section \<open>Properties of the batch loop\<close>

lemma generate_route_errors: "errors (generate_route e r s) = errors s @ route_errors e r"
  by (simp add: route_errors_def generate_route_def push_error_def init_state_def Let_def
      split: outcome.splits prod.splits)

lemma generate_route_written: "written (generate_route e r s) = written s @ route_writes e r"
  by (simp add: route_writes_def generate_route_def push_error_def init_state_def Let_def
      split: outcome.splits prod.splits)

lemma generate_route_rendered:
  "rendered (generate_route e r s) = rendered s @ [(route r, payload r)]"
  by (simp add: generate_route_def push_error_def Let_def split: outcome.splits prod.splits)

lemma generate_route_batches: "batches (generate_route e r s) = batches s"
  by (simp add: generate_route_def push_error_def Let_def split: outcome.splits prod.splits)

lemma generate_route_resolved: "resolved (generate_route e r s) = resolved s"
  by (simp add: generate_route_def push_error_def Let_def split: outcome.splits prod.splits)

lemma generate_route_unawaited: "unawaited (generate_route e r s) = unawaited s"
  by (simp add: generate_route_def push_error_def Let_def split: outcome.splits prod.splits)

lemma generate_route_trace: "trace (generate_route e r s) = trace s @ route_events e r"
  by (simp add: route_events_def generate_route_def push_error_def init_state_def Let_def
      split: outcome.splits prod.splits)

lemma fold_route_trace:
  "trace (fold (generate_route e) rs s) = trace s @ concat (map (route_events e) rs)"
  by (induction rs arbitrary: s) (simp_all add: generate_route_trace)

lemma fold_route_errors:
  "errors (fold (generate_route e) rs s) = errors s @ concat (map (route_errors e) rs)"
  by (induction rs arbitrary: s) (simp_all add: generate_route_errors)

lemma fold_route_written:
  "written (fold (generate_route e) rs s) = written s @ concat (map (route_writes e) rs)"
  by (induction rs arbitrary: s) (simp_all add: generate_route_written)

lemma fold_route_rendered:
  "rendered (fold (generate_route e) rs s) = rendered s @ map (\<lambda>r. (route r, payload r)) rs"
  by (induction rs arbitrary: s) (simp_all add: generate_route_rendered)

lemma fold_route_batches: "batches (fold (generate_route e) rs s) = batches s"
  by (induction rs arbitrary: s) (simp_all add: generate_route_batches)

lemma fold_route_resolved: "resolved (fold (generate_route e) rs s) = resolved s"
  by (induction rs arbitrary: s) (simp_all add: generate_route_resolved)

lemma fold_route_unawaited: "unawaited (fold (generate_route e) rs s) = unawaited s"
  by (induction rs arbitrary: s) (simp_all add: generate_route_unawaited)

lemma concat_map_take_drop:
  "concat (map f (take n xs)) @ concat (map f (drop n xs)) = concat (map f xs)"
  by (metis append_take_drop_id concat_append map_append)

text \<open>
  Each lemma on the loop follows the recursion of \<open>generate_loop\<close>: an empty list leaves
  the state alone, otherwise one batch of 500 is folded and the loop goes on with the rest.
\<close>

lemma loop_errors:
  "errors (generate_loop e rs s) = errors s @ concat (map (route_errors e) rs)"
proof (induction e rs s rule: generate_loop.induct)
  case (1 e routes s)
  show ?case
  proof (cases "routes = []")
    case True
    then show ?thesis by (simp add: generate_loop.simps)
  next
    case False
    then show ?thesis
      using "1.IH" [OF False]
      by (subst generate_loop.simps) (simp add: fold_route_errors concat_map_take_drop)
  qed
qed

lemma loop_written:
  "written (generate_loop e rs s) = written s @ concat (map (route_writes e) rs)"
proof (induction e rs s rule: generate_loop.induct)
  case (1 e routes s)
  show ?case
  proof (cases "routes = []")
    case True
    then show ?thesis by (simp add: generate_loop.simps)
  next
    case False
    then show ?thesis
      using "1.IH" [OF False]
      by (subst generate_loop.simps) (simp add: fold_route_written concat_map_take_drop)
  qed
qed

lemma loop_rendered:
  "rendered (generate_loop e rs s) = rendered s @ map (\<lambda>r. (route r, payload r)) rs"
proof (induction e rs s rule: generate_loop.induct)
  case (1 e routes s)
  show ?case
  proof (cases "routes = []")
    case True
    then show ?thesis by (simp add: generate_loop.simps)
  next
    case False
    have "map (\<lambda>r. (route r, payload r)) (take 500 routes)
          @ map (\<lambda>r. (route r, payload r)) (drop 500 routes)
          = map (\<lambda>r. (route r, payload r)) routes"
      by (metis append_take_drop_id map_append)
    then show ?thesis
      using "1.IH" [OF False] False
      by (subst generate_loop.simps) (simp add: fold_route_rendered)
  qed
qed

lemma loop_resolved: "resolved (generate_loop e rs s) = resolved s"
proof (induction e rs s rule: generate_loop.induct)
  case (1 e routes s)
  show ?case
  proof (cases "routes = []")
    case True
    then show ?thesis by (simp add: generate_loop.simps)
  next
    case False
    then show ?thesis
      using "1.IH" [OF False]
      by (subst generate_loop.simps) (simp add: fold_route_resolved)
  qed
qed

lemma loop_unawaited: "unawaited (generate_loop e rs s) = unawaited s"
proof (induction e rs s rule: generate_loop.induct)
  case (1 e routes s)
  show ?case
  proof (cases "routes = []")
    case True
    then show ?thesis by (simp add: generate_loop.simps)
  next
    case False
    then show ?thesis
      using "1.IH" [OF False]
      by (subst generate_loop.simps) (simp add: fold_route_unawaited)
  qed
qed

lemma ceil_step:
  assumes "0 < (l::nat)"
  shows "(l + 499) div 500 = Suc ((l - 500 + 499) div 500)"
proof (cases "l < 500")
  case True
  have "(l + 499) div 500 = 1"
    by (rule div_nat_eqI) (use assms True in simp_all)
  moreover have "l - 500 = 0" using True by simp
  ultimately show ?thesis by simp
next
  case False
  then obtain m where m: "l = m + 500"
    by (metis le_add_diff_inverse2 not_less)
  have "(m + 499 + 500) div 500 = Suc ((m + 499) div 500)"
    by simp
  then show ?thesis by (simp add: m)
qed

lemma slices_Nil: "slices [] = []"
  by (simp add: slices_def)

lemma slices_step:
  assumes "xs \<noteq> []"
  shows "slices xs = take 500 xs # slices (drop 500 xs)"
proof -
  have len: "0 < length xs" using assms by simp
  have n: "(length xs + 499) div 500 = Suc ((length (drop 500 xs) + 499) div 500)"
    using ceil_step [OF len] by simp
  have "[0..<Suc ((length (drop 500 xs) + 499) div 500)]
        = 0 # map Suc [0..<(length (drop 500 xs) + 499) div 500]"
    by (simp add: upt_conv_Cons map_Suc_upt del: upt_Suc)
  then show ?thesis
    unfolding slices_def n by (simp add: comp_def add.commute del: upt_Suc)
qed

lemma loop_batches: "batches (generate_loop e rs s) = batches s @ slices rs"
proof (induction e rs s rule: generate_loop.induct)
  case (1 e routes s)
  show ?case
  proof (cases "routes = []")
    case True
    then show ?thesis by (simp add: slices_Nil generate_loop.simps)
  next
    case False
    then show ?thesis
      using "1.IH" [OF False]
      by (subst generate_loop.simps) (simp add: fold_route_batches slices_step)
  qed
qed

lemma loop_trace:
  "trace (generate_loop e rs s) = trace s @ concat (map (batch_trace e) (slices rs))"
proof (induction e rs s rule: generate_loop.induct)
  case (1 e routes s)
  show ?case
  proof (cases "routes = []")
    case True
    then show ?thesis by (simp add: slices_Nil generate_loop.simps)
  next
    case False
    have head: "trace s @ [BatchStart (take 500 routes)]
                  @ concat (map (route_events e) (take 500 routes))
                = trace s @ batch_trace e (take 500 routes)"
      by (simp add: batch_trace_def)
    show ?thesis
      using "1.IH" [OF False] False head
      by (subst generate_loop.simps) (simp add: fold_route_trace slices_step)
  qed
qed

section \<open>Properties of the route map\<close>

lemma map_of_upsert: "map_of (upsert m k v) = (map_of m)(k \<mapsto> v)"
  by (induction m) (auto simp: fun_eq_iff)

lemma keys_upsert:
  "map fst (upsert m k v) = (if k \<in> set (map fst m) then map fst m else map fst m @ [k])"
  by (induction m) force+

lemma last_filter:
  assumes "filter P xs = y # ys"
  shows "P (last (y # ys))"
proof -
  have "last (y # ys) \<in> set (filter P xs)"
    using assms by (metis last_in_set list.distinct(1))
  then show ?thesis by simp
qed

lemma distinct_upsert: "distinct (map fst m) \<Longrightarrow> distinct (map fst (upsert m k v))"
  by (simp add: keys_upsert)

lemma distinct_obj_assign: "distinct (map fst m) \<Longrightarrow> distinct (map fst (obj_assign m k v))"
  by (simp add: obj_assign_def distinct_upsert)

lemma map_of_obj_assign:
  "map_of (obj_assign m k v) = (if k = ''__proto__'' then map_of m else (map_of m)(k \<mapsto> v))"
  by (simp add: obj_assign_def map_of_upsert)

lemma distinct_fold_assign:
  "distinct (map fst m) \<Longrightarrow> distinct (map fst (fold (\<lambda>x m. obj_assign m (kf x) (vf x)) xs m))"
  by (induction xs arbitrary: m) (simp_all add: distinct_obj_assign)

lemma map_of_fold_assign:
  "map_of (fold (\<lambda>x m. obj_assign m (kf x) (vf x)) xs m) k =
     (if k = ''__proto__'' then map_of m k
      else (case filter (\<lambda>x. kf x = k) xs of
              [] \<Rightarrow> map_of m k
            | y # ys \<Rightarrow> Some (vf (last (y # ys)))))"
proof (induction xs arbitrary: m)
  case Nil
  then show ?case by simp
next
  case (Cons x xs)
  show ?case
    by (simp add: Cons.IH map_of_obj_assign split: list.splits)
qed

lemma set_own_entries: "set (own_entries m) = set m"
  by (auto simp: own_entries_def)

lemma distinct_own_entries: "distinct m \<Longrightarrow> distinct (own_entries m)"
  by (auto simp: own_entries_def)

lemma distinct_keys_own_entries:
  assumes "distinct (map fst m)"
  shows "distinct (map fst (own_entries m))"
proof -
  from assms have "distinct m" and "inj_on fst (set m)"
    by (simp_all add: distinct_map)
  then show ?thesis
    by (simp add: distinct_map set_own_entries distinct_own_entries)
qed

lemma decorate_merged_map:
  "decorateWithPayloads generateRoutes routes = js_values (merged_map generateRoutes routes)"
  by (simp add: decorateWithPayloads_def merged_map_def static_map_def)

lemma distinct_merged_map: "distinct (map fst (merged_map g rs))"
  unfolding merged_map_def static_map_def
  by (intro distinct_fold_assign) simp

lemma map_of_static_map:
  "map_of (static_map rs) k =
     (if k \<noteq> ''__proto__'' \<and> k \<in> set rs then Some \<lparr>route = k, payload = JNull\<rparr> else None)"
proof -
  have "filter (\<lambda>x. x = k) rs = [] \<longleftrightarrow> k \<notin> set rs"
    by (auto simp: filter_empty_conv)
  moreover have "\<And>y ys. filter (\<lambda>x. x = k) rs = y # ys \<Longrightarrow> last (y # ys) = k"
    by (rule last_filter)
  ultimately show ?thesis
    unfolding static_map_def
    by (auto simp: map_of_fold_assign split: list.splits)
qed

lemma map_of_merged_map:
  "map_of (merged_map g rs) k =
     (if k \<noteq> ''__proto__'' \<and> k \<in> set rs \<union> item_path ` set g
      then Some \<lparr>route = k, payload = merged_payload g k\<rparr> else None)"
proof -
  have none: "filter (\<lambda>it. item_path it = k) g = [] \<longleftrightarrow> k \<notin> item_path ` set g"
    by (auto simp: filter_empty_conv)
  have some: "\<And>y ys. filter (\<lambda>it. item_path it = k) g = y # ys \<Longrightarrow> item_path (last (y # ys)) = k"
    by (rule last_filter)
  show ?thesis
  proof (cases "filter (\<lambda>it. item_path it = k) g")
    case Nil
    then show ?thesis
      using none
      by (simp add: merged_map_def map_of_fold_assign map_of_static_map merged_payload_def)
  next
    case (Cons y ys)
    then have "k \<in> item_path ` set g" using none by auto
    then show ?thesis
      using Cons some [OF Cons]
      by (simp add: merged_map_def map_of_fold_assign merged_payload_def map_of_static_map)
  qed
qed

lemma merged_map_entry:
  "(k, v) \<in> set (merged_map g rs) \<longleftrightarrow>
     k \<noteq> ''__proto__'' \<and> k \<in> set rs \<union> item_path ` set g
     \<and> v = \<lparr>route = k, payload = merged_payload g k\<rparr>"
proof -
  have "(k, v) \<in> set (merged_map g rs) \<longleftrightarrow> map_of (merged_map g rs) k = Some v"
    using distinct_merged_map by (simp add: map_of_eq_Some_iff)
  then show ?thesis
    by (auto simp: map_of_merged_map)
qed

lemma merged_map_values:
  "map snd (own_entries (merged_map g rs))
   = map (\<lambda>k. \<lparr>route = k, payload = merged_payload g k\<rparr>) (map fst (own_entries (merged_map g rs)))"
proof -
  have "\<And>p. p \<in> set (own_entries (merged_map g rs))
        \<Longrightarrow> snd p = \<lparr>route = fst p, payload = merged_payload g (fst p)\<rparr>"
    using merged_map_entry [of _ _ g rs] by (simp add: set_own_entries) (metis prod.collapse)
  then show ?thesis by simp
qed

lemma decorate_routes:
  "map route (decorateWithPayloads g rs) = map fst (own_entries (merged_map g rs))"
  by (simp add: decorate_merged_map js_values_def merged_map_values comp_def)

lemma distinct_decorate: "distinct (map route (decorateWithPayloads g rs))"
  by (simp add: decorate_routes distinct_keys_own_entries distinct_merged_map)

lemma decorate_member:
  "s \<in> set (decorateWithPayloads g rs) \<longleftrightarrow>
     route s \<noteq> ''__proto__'' \<and> route s \<in> set rs \<union> item_path ` set g
     \<and> payload s = merged_payload g (route s)"
proof -
  have "s \<in> set (decorateWithPayloads g rs) \<longleftrightarrow> (\<exists>k. (k, s) \<in> set (merged_map g rs))"
    by (force simp: decorate_merged_map js_values_def set_own_entries)
  then show ?thesis
    by (auto simp: merged_map_entry)
qed

lemma set_first_occ: "set (first_occ xs) = set xs"
  by (induction xs) auto

lemma distinct_first_occ: "distinct (first_occ xs)"
  by (induction xs) (simp_all add: set_first_occ)

lemma filter_first_occ: "filter P (first_occ xs) = first_occ (filter P xs)"
proof (induction xs)
  case Nil
  then show ?case by simp
next
  case (Cons x xs)
  have comm: "filter P (filter (\<lambda>y. y \<noteq> x) (first_occ xs))
              = filter (\<lambda>y. y \<noteq> x) (filter P (first_occ xs))"
    by (simp add: conj_commute)
  show ?case
  proof (cases "P x")
    case True
    then show ?thesis using Cons.IH comm by simp
  next
    case False
    then have "filter P (filter (\<lambda>y. y \<noteq> x) (first_occ xs)) = filter P (first_occ xs)"
      by (auto intro: filter_cong)
    then show ?thesis using False Cons.IH by simp
  qed
qed

lemma keys_fold_assign:
  assumes "list_all (\<lambda>x. kf x \<noteq> ''__proto__'') xs"
  shows "map fst (fold (\<lambda>x m. obj_assign m (kf x) (vf x)) xs m)
         = map fst m @ first_occ (filter (\<lambda>k. k \<notin> set (map fst m)) (map kf xs))"
  using assms
proof (induction xs arbitrary: m)
  case Nil
  then show ?case by simp
next
  case (Cons x xs)
  then have np: "kf x \<noteq> ''__proto__''" and rest: "list_all (\<lambda>x. kf x \<noteq> ''__proto__'') xs"
    by simp_all
  let ?m' = "upsert m (kf x) (vf x)"
  have step: "fold (\<lambda>x m. obj_assign m (kf x) (vf x)) (x # xs) m
              = fold (\<lambda>x m. obj_assign m (kf x) (vf x)) xs ?m'"
    using np by (simp add: obj_assign_def)
  show ?case
  proof (cases "kf x \<in> set (map fst m)")
    case True
    then have "map fst ?m' = map fst m" by (simp add: keys_upsert)
    then show ?thesis
      using Cons.IH [OF rest, of ?m'] True unfolding step by simp
  next
    case False
    then have k: "map fst ?m' = map fst m @ [kf x]" by (simp add: keys_upsert)
    have "filter (\<lambda>y. y \<noteq> kf x) (filter (\<lambda>k. k \<notin> set (map fst m)) (map kf xs))
          = filter (\<lambda>k. k \<notin> set (map fst ?m')) (map kf xs)"
      unfolding k by (auto intro: filter_cong)
    then show ?thesis
      using Cons.IH [OF rest, of ?m'] False unfolding step
      by (simp add: k filter_first_occ)
  qed
qed

lemma own_entries_plain:
  assumes "list_all (\<lambda>k. \<not> is_array_index k) (map fst m)"
  shows "own_entries m = m"
proof -
  have "filter (\<lambda>p. is_array_index (fst p)) m = []"
    using assms by (auto simp: filter_empty_conv list_all_iff)
  moreover have "filter (\<lambda>p. \<not> is_array_index (fst p)) m = m"
    using assms by (auto simp: filter_id_conv list_all_iff)
  ultimately show ?thesis by (simp add: own_entries_def)
qed

lemma decorate_plain:
  assumes "list_all plain_key rs" and "list_all plain_key (map item_path g)"
  shows "decorateWithPayloads g rs
         = map (\<lambda>k. \<lparr>route = k, payload = merged_payload g k\<rparr>)
             (first_occ rs @ first_occ (filter (\<lambda>p. p \<notin> set rs) (map item_path g)))"
proof -
  have np1: "list_all (\<lambda>x. x \<noteq> ''__proto__'') rs"
    using assms(1) by (simp add: list_all_iff plain_key_def)
  have np2: "list_all (\<lambda>x. item_path x \<noteq> ''__proto__'') g"
    using assms(2) by (simp add: list_all_iff plain_key_def)
  have k1: "map fst (static_map rs) = first_occ rs"
    unfolding static_map_def using keys_fold_assign [OF np1, of "\<lambda>r. \<lparr>route = r, payload = JNull\<rparr>" "[]"]
    by simp
  have k2: "map fst (merged_map g rs)
            = first_occ rs @ first_occ (filter (\<lambda>p. p \<notin> set rs) (map item_path g))"
    unfolding merged_map_def
    using keys_fold_assign [OF np2, of "\<lambda>it. \<lparr>route = item_path it, payload = js_or (item_payload it) JNull\<rparr>" "static_map rs"]
    by (simp add: k1 set_first_occ)
  have "list_all (\<lambda>k. \<not> is_array_index k) (map fst (merged_map g rs))"
    unfolding k2 using assms by (auto simp: list_all_iff plain_key_def set_first_occ)
  then have "own_entries (merged_map g rs) = merged_map g rs"
    by (rule own_entries_plain)
  then show ?thesis
    using merged_map_values [of g rs] by (simp add: decorate_merged_map js_values_def k2)
qed

section \<open>One route within a run\<close>

lemma route_errors_throws:
  "renderRoute e (route r) (payload r) = Throws err
   \<Longrightarrow> route_errors e r = [\<lparr>ftype = Unhandled, froute = route r, ferror = err\<rparr>]"
  by (simp add: route_errors_def generate_route_def push_error_def init_state_def)

lemma route_writes_throws:
  "renderRoute e (route r) (payload r) = Throws err \<Longrightarrow> route_writes e r = []"
  by (simp add: route_writes_def generate_route_def push_error_def init_state_def)

lemma route_errors_returns:
  "renderRoute e (route r) (payload r) = Returns res
   \<Longrightarrow> route_errors e r =
       (if truthy (error res)
        then [\<lparr>ftype = Handled, froute = route r, ferror = error res\<rparr>] else [])
       @ (if truthy (generate_minify e)
          then (case minify e (html res) of
                  Returns h \<Rightarrow> []
                | Throws x \<Rightarrow> [\<lparr>ftype = Unhandled, froute = route r,
                                ferror = JError (minify_message (html res))\<rparr>])
          else [])"
  by (simp add: route_errors_def generate_route_def push_error_def init_state_def Let_def
      split: outcome.splits)

lemma route_writes_returns:
  "renderRoute e (route r) (payload r) = Returns res
   \<Longrightarrow> route_writes e r =
       [\<lparr>by_route = route r, wfile = out_path (distPath e) (route r),
         wcontent = (if truthy (generate_minify e)
                     then (case minify e (html res) of Returns h \<Rightarrow> h | Throws x \<Rightarrow> html res)
                     else html res)\<rparr>]"
  by (simp add: route_writes_def generate_route_def push_error_def init_state_def Let_def
      split: outcome.splits)

lemma route_errors_all_froute: "list_all (\<lambda>f. froute f = route r) (route_errors e r)"
proof (cases "renderRoute e (route r) (payload r)")
  case (Throws err)
  show ?thesis
    by (simp add: route_errors_throws [OF Throws])
next
  case (Returns res)
  show ?thesis
    by (simp add: route_errors_returns [OF Returns] split: outcome.splits)
qed

lemma route_errors_froute: "f \<in> set (route_errors e r) \<Longrightarrow> froute f = route r"
  using route_errors_all_froute [of r e] by (simp add: list_all_iff)

lemma route_writes_all_by_route: "list_all (\<lambda>w. by_route w = route r) (route_writes e r)"
proof (cases "renderRoute e (route r) (payload r)")
  case (Throws err)
  show ?thesis
    by (simp add: route_writes_throws [OF Throws])
next
  case (Returns res)
  show ?thesis
    by (simp add: route_writes_returns [OF Returns])
qed

lemma route_writes_by_route: "w \<in> set (route_writes e r) \<Longrightarrow> by_route w = route r"
  using route_writes_all_by_route [of r e] by (simp add: list_all_iff)

lemma filter_concat_key:
  assumes "distinct (map key rs)" and "r \<in> set rs"
    and "\<And>r' x. x \<in> set (g r') \<Longrightarrow> tag x = key r'"
  shows "filter (\<lambda>x. tag x = key r) (concat (map g rs)) = g r"
  using assms(1,2)
proof (induction rs)
  case Nil
  then show ?case by simp
next
  case (Cons a rs)
  have all: "\<And>r'. key r' = key r \<Longrightarrow> filter (\<lambda>x. tag x = key r) (g r') = g r'"
    using assms(3) by (simp add: filter_id_conv)
  have none: "\<And>r'. key r' \<noteq> key r \<Longrightarrow> filter (\<lambda>x. tag x = key r) (g r') = []"
    using assms(3) by (auto simp: filter_empty_conv)
  show ?case
  proof (cases "a = r")
    case True
    then have "key r \<notin> key ` set rs" using Cons.prems by simp
    then have "\<forall>r'\<in>set rs. filter (\<lambda>x. tag x = key r) (g r') = []"
      using none by (metis imageI)
    then have "filter (\<lambda>x. tag x = key r) (concat (map g rs)) = []"
      by (induction rs) simp_all
    then show ?thesis using True all by simp
  next
    case False
    then have "r \<in> set rs" and "key a \<noteq> key r" using Cons.prems by auto
    then show ?thesis using Cons none by simp
  qed
qed

lemma resolve_routes_state:
  "errors (snd (resolve_routes e init_state)) = []"
  "batches (snd (resolve_routes e init_state)) = []"
  "rendered (snd (resolve_routes e init_state)) = []"
  "written (snd (resolve_routes e init_state)) = []"
  "trace (snd (resolve_routes e init_state)) = []"
  by (simp_all add: resolve_routes_def init_state_def)

lemma generate_state:
  assumes "prepare e = Returns u" and "resolve_routes e init_state = (Returns g, s0)"
  shows "snd (generate e)
         = (generate_loop e (merged_routes e g) s0)\<lparr>unawaited :=
              unawaited (generate_loop e (merged_routes e g) s0)
              @ [(path_join [distPath e, ''.nojekyll''], [])]\<rparr>"
  by (simp add: generate_def assms Let_def split: outcome.split)

lemma generate_success:
  assumes "prepare e = Returns u" and "fst (resolve_routes e init_state) = Returns g"
  shows "errors (snd (generate e)) = concat (map (route_errors e) (merged_routes e g))"
    and "written (snd (generate e)) = concat (map (route_writes e) (merged_routes e g))"
    and "rendered (snd (generate e)) = map (\<lambda>r. (route r, payload r)) (merged_routes e g)"
    and "batches (snd (generate e)) = slices (merged_routes e g)"
    and "trace (snd (generate e)) = concat (map (batch_trace e) (slices (merged_routes e g)))"
proof -
  obtain s0 where r: "resolve_routes e init_state = (Returns g, s0)"
    using assms(2) by (cases "resolve_routes e init_state") simp
  have s0: "errors s0 = []" "batches s0 = []" "rendered s0 = []" "written s0 = []"
    "trace s0 = []"
    using resolve_routes_state [of e] by (simp_all add: r)
  note gen = generate_state [OF assms(1) r]
  show "errors (snd (generate e)) = concat (map (route_errors e) (merged_routes e g))"
    by (simp add: gen loop_errors s0)
  show "written (snd (generate e)) = concat (map (route_writes e) (merged_routes e g))"
    by (simp add: gen loop_written s0)
  show "rendered (snd (generate e)) = map (\<lambda>r. (route r, payload r)) (merged_routes e g)"
    by (simp add: gen loop_rendered s0)
  show "batches (snd (generate e)) = slices (merged_routes e g)"
    by (simp add: gen loop_batches s0)
  show "trace (snd (generate e)) = concat (map (batch_trace e) (slices (merged_routes e g)))"
    by (simp add: gen loop_trace s0)
qed

text \<open>The report fails on an \<open>unhandled\<close> record whose error is \<open>null\<close> or \<open>undefined\<close>.\<close>

lemma report_null_stack:
  "ferror f = JNull \<or> ferror f = JUndefined \<Longrightarrow> ftype f = Unhandled
   \<Longrightarrow> report_lines e (f # fs) = Throws (typeError e)"
  by (auto simp: report_line_def error_stack_def)

lemma distinct_merged_routes: "distinct (map route (merged_routes e g))"
  by (simp add: merged_routes_def distinct_decorate)

lemma errors_of_route:
  assumes "prepare e = Returns u" and "fst (resolve_routes e init_state) = Returns g"
    and "r \<in> set (merged_routes e g)"
  shows "filter (\<lambda>f. froute f = route r) (errors (snd (generate e))) = route_errors e r"
  unfolding generate_success(1) [OF assms(1,2)]
  by (rule filter_concat_key [OF distinct_merged_routes assms(3)]) (rule route_errors_froute)

lemma writes_of_route:
  assumes "prepare e = Returns u" and "fst (resolve_routes e init_state) = Returns g"
    and "r \<in> set (merged_routes e g)"
  shows "filter (\<lambda>w. by_route w = route r) (written (snd (generate e))) = route_writes e r"
  unfolding generate_success(2) [OF assms(1,2)]
  by (rule filter_concat_key [OF distinct_merged_routes assms(3)]) (rule route_writes_by_route)

section \<open>The route merger\<close>

lemma leading_slash_plain:
  assumes "hd k = CHR ''/''"
  shows "plain_key k"
proof -
  have "\<not> list_all is_digit k \<or> k = []"
    using assms by (cases k) (simp_all add: is_digit_def)
  moreover have "k \<noteq> ''__proto__''" using assms by auto
  ultimately show ?thesis
    by (auto simp: plain_key_def is_array_index_def)
qed

lemma filter_distinct_key:
  "distinct (map f xs) \<Longrightarrow> x \<in> set xs \<Longrightarrow> filter (\<lambda>y. f y = f x) xs = [x]"
proof (induction xs)
  case Nil
  then show ?case by simp
next
  case (Cons a xs)
  show ?case
  proof (cases "a = x")
    case True
    then have "f x \<notin> f ` set xs" using Cons.prems by simp
    then have "\<forall>y\<in>set xs. f y \<noteq> f x" by (metis imageI)
    then have "filter (\<lambda>y. f y = f x) xs = []" by (simp add: filter_empty_conv)
    then show ?thesis using True by simp
  next
    case False
    then have "x \<in> set xs" and "f a \<noteq> f x" using Cons.prems by auto
    then show ?thesis using Cons by simp
  qed
qed

lemma decorate_paths:
  "set (map route (decorateWithPayloads g rs)) = (set rs \<union> item_path ` set g) - {''__proto__''}"
proof (intro set_eqI iffI)
  fix k
  assume "k \<in> set (map route (decorateWithPayloads g rs))"
  then show "k \<in> (set rs \<union> item_path ` set g) - {''__proto__''}"
    by (auto simp: decorate_member)
next
  fix k
  assume k: "k \<in> (set rs \<union> item_path ` set g) - {''__proto__''}"
  then have "\<lparr>route = k, payload = merged_payload g k\<rparr> \<in> set (decorateWithPayloads g rs)"
    by (simp add: decorate_member)
  then have "route \<lparr>route = k, payload = merged_payload g k\<rparr>
             \<in> route ` set (decorateWithPayloads g rs)"
    by (rule imageI)
  then show "k \<in> set (map route (decorateWithPayloads g rs))" by simp
qed

lemma decorate_payloads:
  "map payload (decorateWithPayloads g rs)
   = map (merged_payload g) (map route (decorateWithPayloads g rs))"
  by (simp add: decorate_merged_map js_values_def merged_map_values comp_def)

text \<open>
  Claim C1, as amended. For every static path list and dynamic item list the merged work
  list holds exactly one RouteSpec per distinct path, the key \<open>__proto__\<close> excepted, which
  the object drops; the payload of a path is \<open>null\<close> when no dynamic item names it, and
  otherwise \<open>payload || null\<close> of the last dynamic item naming it. When the paths are plain
  keys (neither an array index nor \<open>__proto__\<close>; every path beginning with \<open>/\<close> is one), the
  list holds the static paths in the order of their first occurrence, followed by the paths
  that only dynamic items name, in the order of their first dynamic item.
\<close>

theorem merge_order:
  "distinct (map route (decorateWithPayloads generateRoutes routes))
   \<and> set (map route (decorateWithPayloads generateRoutes routes))
       = (set routes \<union> item_path ` set generateRoutes) - {''__proto__''}
   \<and> map payload (decorateWithPayloads generateRoutes routes)
       = map (merged_payload generateRoutes)
           (map route (decorateWithPayloads generateRoutes routes))
   \<and> (list_all plain_key routes \<and> list_all plain_key (map item_path generateRoutes) \<longrightarrow>
        map route (decorateWithPayloads generateRoutes routes)
        = first_occ routes
          @ first_occ (filter (\<lambda>p. p \<notin> set routes) (map item_path generateRoutes)))"
proof -
  have "map route (decorateWithPayloads generateRoutes routes)
        = first_occ routes
          @ first_occ (filter (\<lambda>p. p \<notin> set routes) (map item_path generateRoutes))"
    if "list_all plain_key routes" and "list_all plain_key (map item_path generateRoutes)"
    unfolding decorate_plain [OF that] by (simp add: comp_def)
  then show ?thesis
    using distinct_decorate [of generateRoutes routes] decorate_paths [of generateRoutes routes]
      decorate_payloads [of generateRoutes routes]
    by (simp only: simp_thms) blast
qed

theorem merge_order_witness:
  "list_all plain_key [''/a'', ''/b'']
   \<and> list_all plain_key (map item_path [ItemObject ''/b'' (JNum 1), ItemObject ''/c'' (JNum 2)])
   \<and> map route (decorateWithPayloads [ItemObject ''/b'' (JNum 1), ItemObject ''/c'' (JNum 2)]
        [''/a'', ''/b'']) = [''/a'', ''/b'', ''/c'']
   \<and> map payload (decorateWithPayloads [ItemObject ''/b'' (JNum 1), ItemObject ''/c'' (JNum 2)]
        [''/a'', ''/b'']) = [JNull, JNum 1, JNum 2]"
proof -
  have p1: "list_all plain_key [''/a'', ''/b'']"
    by (simp add: leading_slash_plain)
  have p2: "list_all plain_key (map item_path [ItemObject ''/b'' (JNum 1), ItemObject ''/c'' (JNum 2)])"
    by (simp add: leading_slash_plain)
  let ?g = "[ItemObject ''/b'' (JNum 1), ItemObject ''/c'' (JNum 2)]"
  note t = merge_order [of ?g "[''/a'', ''/b'']"]
  have r: "map route (decorateWithPayloads ?g [''/a'', ''/b'']) = [''/a'', ''/b'', ''/c'']"
    using t [THEN conjunct2, THEN conjunct2, THEN conjunct2, rule_format, OF conjI [OF p1 p2]]
    by simp
  have "map payload (decorateWithPayloads ?g [''/a'', ''/b''])
        = map (merged_payload ?g) [''/a'', ''/b'', ''/c'']"
    using t [THEN conjunct2, THEN conjunct2, THEN conjunct1] unfolding r .
  then have "map payload (decorateWithPayloads ?g [''/a'', ''/b'']) = [JNull, JNum 1, JNum 2]"
    by (simp add: merged_payload_def js_or_def)
  then show ?thesis
    using p1 p2 r by (simp only: simp_thms)
qed

text \<open>
  The claim as stated fails for a path that is an array index: the object lists such a key
  before every other key, so the dynamic-only path \<open>1\<close> comes before the static \<open>/a\<close>.
\<close>

theorem merge_order_counterexample:
  "map route (decorateWithPayloads [ItemString ''1''] [''/a'']) = [''1'', ''/a'']"
  by (simp add: decorateWithPayloads_def obj_assign_def js_values_def own_entries_def
      is_array_index_def is_digit_def index_value_def digit_val_def)

text \<open>
  Claim C4, as amended. For every path other than \<open>__proto__\<close> that is a static path and is
  named by at least one dynamic item, the work list holds exactly one RouteSpec for the
  path, and its payload is the payload of the last dynamic item naming the path when that
  payload is truthy, and \<open>null\<close> when it is falsy or missing.
\<close>

theorem payload_override:
  assumes "p \<in> set routes"
    and "filter (\<lambda>it. item_path it = p) generateRoutes = it # its"
    and "p \<noteq> ''__proto__''"
  shows "filter (\<lambda>s. route s = p) (decorateWithPayloads generateRoutes routes)
         = [\<lparr>route = p,
             payload = (if truthy (item_payload (last (it # its)))
                        then item_payload (last (it # its)) else JNull)\<rparr>]"
proof -
  let ?s = "\<lparr>route = p, payload = merged_payload generateRoutes p\<rparr>"
  have "?s \<in> set (decorateWithPayloads generateRoutes routes)"
    using assms(1,3) by (simp add: decorate_member)
  then have "filter (\<lambda>y. route y = route ?s) (decorateWithPayloads generateRoutes routes) = [?s]"
    by (rule filter_distinct_key [OF distinct_decorate])
  then show ?thesis
    using assms(2) by (simp add: merged_payload_def js_or_def)
qed

theorem payload_override_witness:
  "''/b'' \<in> set [''/a'', ''/b'']
   \<and> filter (\<lambda>it. item_path it = ''/b'') [ItemObject ''/b'' (JNum 1), ItemObject ''/c'' (JNum 2)]
       = [ItemObject ''/b'' (JNum 1)]
   \<and> ''/b'' \<noteq> ''__proto__''
   \<and> filter (\<lambda>s. route s = ''/b'')
        (decorateWithPayloads [ItemObject ''/b'' (JNum 1), ItemObject ''/c'' (JNum 2)] [''/a'', ''/b''])
       = [\<lparr>route = ''/b'', payload = JNum 1\<rparr>]"
  using payload_override [of "''/b''" "[''/a'', ''/b'']"
      "[ItemObject ''/b'' (JNum 1), ItemObject ''/c'' (JNum 2)]" "ItemObject ''/b'' (JNum 1)" "[]"]
  by simp

text \<open>
  The claim as stated fails for a falsy payload: the dynamic payload \<open>0\<close> is replaced by
  \<open>null\<close>.
\<close>

theorem payload_override_counterexample:
  "decorateWithPayloads [ItemObject ''/a'' (JNum 0)] [''/a''] = [\<lparr>route = ''/a'', payload = JNull\<rparr>]"
  by (simp add: decorateWithPayloads_def obj_assign_def js_values_def own_entries_def
      is_array_index_def is_digit_def js_or_def)

section \<open>Failures and writes of a run\<close>

lemma demo_resolve:
  "fst (resolve_routes env_demo init_state) = Returns [ItemObject ''/x'' (JNum 1)]"
  by (simp add: resolve_routes_def env_demo_def)

lemma demo_member:
  "\<lparr>route = ''/x'', payload = JNum 1\<rparr> \<in> set (merged_routes env_demo [ItemObject ''/x'' (JNum 1)])"
  "\<lparr>route = ''/about'', payload = JNull\<rparr> \<in> set (merged_routes env_demo [ItemObject ''/x'' (JNum 1)])"
  "\<lparr>route = ''/'', payload = JNull\<rparr> \<in> set (merged_routes env_demo [ItemObject ''/x'' (JNum 1)])"
  by (simp_all add: merged_routes_def env_demo_def decorate_member merged_payload_def js_or_def)

text \<open>
  Claim C5. In a run whose preparation and route resolution succeed, a route of the work
  list whose render call throws gets exactly one record, of type \<open>unhandled\<close> and carrying
  the thrown value, and no file is written for it; every route of the work list is still
  rendered, and every route whose render call returns has its file written with the markup
  (minified when minification is configured and succeeds).
\<close>

theorem render_throw_isolated:
  assumes "prepare e = Returns u"
    and "fst (resolve_routes e init_state) = Returns g"
    and "r \<in> set (merged_routes e g)"
    and "renderRoute e (route r) (payload r) = Throws err"
  shows "filter (\<lambda>f. froute f = route r) (errors (snd (generate e)))
           = [\<lparr>ftype = Unhandled, froute = route r, ferror = err\<rparr>]
         \<and> filter (\<lambda>w. by_route w = route r) (written (snd (generate e))) = []
         \<and> map fst (rendered (snd (generate e))) = map route (merged_routes e g)
         \<and> (\<forall>r' \<in> set (merged_routes e g). \<forall>res.
               renderRoute e (route r') (payload r') = Returns res \<longrightarrow>
               filter (\<lambda>w. by_route w = route r') (written (snd (generate e)))
               = [\<lparr>by_route = route r', wfile = out_path (distPath e) (route r'),
                   wcontent = (if truthy (generate_minify e)
                               then (case minify e (html res) of
                                       Returns h \<Rightarrow> h | Throws x \<Rightarrow> html res)
                               else html res)\<rparr>])"
proof -
  have "filter (\<lambda>f. froute f = route r) (errors (snd (generate e)))
        = [\<lparr>ftype = Unhandled, froute = route r, ferror = err\<rparr>]"
    by (simp add: errors_of_route [OF assms(1,2,3)] route_errors_throws [OF assms(4)])
  moreover have "filter (\<lambda>w. by_route w = route r) (written (snd (generate e))) = []"
    by (simp add: writes_of_route [OF assms(1,2,3)] route_writes_throws [OF assms(4)])
  moreover have "map fst (rendered (snd (generate e))) = map route (merged_routes e g)"
    by (simp add: generate_success(3) [OF assms(1,2)] comp_def)
  moreover have "\<forall>r' \<in> set (merged_routes e g). \<forall>res.
               renderRoute e (route r') (payload r') = Returns res \<longrightarrow>
               filter (\<lambda>w. by_route w = route r') (written (snd (generate e)))
               = [\<lparr>by_route = route r', wfile = out_path (distPath e) (route r'),
                   wcontent = (if truthy (generate_minify e)
                               then (case minify e (html res) of
                                       Returns h \<Rightarrow> h | Throws x \<Rightarrow> html res)
                               else html res)\<rparr>]"
    by (simp add: writes_of_route [OF assms(1,2)] route_writes_returns)
  ultimately show ?thesis by (simp only: simp_thms)
qed

lemma demo_paths:
  "out_path ''/dist'' ''/'' = ''/dist/index.html''"
  "out_path ''/dist'' ''/about'' = ''/dist/about/index.html''"
  "out_path ''/dist'' ''/z'' = ''/dist/z/index.html''"
  "out_path ''/dist'' ''/y'' = ''/dist/y/index.html''"
  by (simp_all add: out_path_def path_join_def path_normalize_def normalizeString_def
      normalize_step_def path_sep_def)

theorem render_throw_isolated_witness:
  "prepare env_demo = Returns ()
   \<and> fst (resolve_routes env_demo init_state) = Returns [ItemObject ''/x'' (JNum 1)]
   \<and> \<lparr>route = ''/x'', payload = JNum 1\<rparr>
       \<in> set (merged_routes env_demo [ItemObject ''/x'' (JNum 1)])
   \<and> renderRoute env_demo ''/x'' (JNum 1) = Throws (JError ''boom'')
   \<and> filter (\<lambda>f. froute f = ''/x'') (errors (snd (generate env_demo)))
       = [\<lparr>ftype = Unhandled, froute = ''/x'', ferror = JError ''boom''\<rparr>]
   \<and> filter (\<lambda>w. by_route w = ''/x'') (written (snd (generate env_demo))) = []
   \<and> filter (\<lambda>w. by_route w = ''/'') (written (snd (generate env_demo)))
       = [\<lparr>by_route = ''/'', wfile = ''/dist/index.html'', wcontent = ''<h1>home''\<rparr>]"
proof -
  let ?g = "[ItemObject ''/x'' (JNum 1)]"
  let ?r = "\<lparr>route = ''/x'', payload = JNum 1\<rparr>"
  let ?home = "\<lparr>route = ''/'', payload = JNull\<rparr>"
  have h1: "prepare env_demo = Returns ()" by (simp add: env_demo_def)
  have h4: "renderRoute env_demo (route ?r) (payload ?r) = Throws (JError ''boom'')"
    by (simp add: env_demo_def demo_render_def)
  have home: "renderRoute env_demo (route ?home) (payload ?home)
              = Returns \<lparr>html = ''<h1> home'', error = JNull\<rparr>"
    by (simp add: env_demo_def demo_render_def)
  note t = render_throw_isolated [OF h1 demo_resolve demo_member(1) h4]
  from t have e: "filter (\<lambda>f. froute f = ''/x'') (errors (snd (generate env_demo)))
       = [\<lparr>ftype = Unhandled, froute = ''/x'', ferror = JError ''boom''\<rparr>]"
    by simp
  from t have w: "filter (\<lambda>w. by_route w = ''/x'') (written (snd (generate env_demo))) = []"
    by simp
  from t demo_member(3) home
  have "filter (\<lambda>w. by_route w = route ?home) (written (snd (generate env_demo)))
        = [\<lparr>by_route = route ?home, wfile = out_path (distPath env_demo) (route ?home),
            wcontent = (if truthy (generate_minify env_demo)
                        then (case minify env_demo (html \<lparr>html = ''<h1> home'', error = JNull\<rparr>) of
                                Returns h \<Rightarrow> h
                              | Throws x \<Rightarrow> html \<lparr>html = ''<h1> home'', error = JNull\<rparr>)
                        else html \<lparr>html = ''<h1> home'', error = JNull\<rparr>)\<rparr>]"
    by blast
  then have o: "filter (\<lambda>w. by_route w = ''/'') (written (snd (generate env_demo)))
       = [\<lparr>by_route = ''/'', wfile = ''/dist/index.html'', wcontent = ''<h1>home''\<rparr>]"
    by (simp add: env_demo_def demo_minify_def demo_paths)
  show ?thesis
    using h1 demo_resolve demo_member(1) h4 e w o by simp
qed

lemma filter_handled:
  "filter (\<lambda>f. ftype f = Handled)
     ((if c then [\<lparr>ftype = Handled, froute = a, ferror = b\<rparr>] else [])
      @ (if d then (case m of Returns h \<Rightarrow> []
                    | Throws x \<Rightarrow> [\<lparr>ftype = Unhandled, froute = a, ferror = b'\<rparr>])
         else []))
   = (if c then [\<lparr>ftype = Handled, froute = a, ferror = b\<rparr>] else [])"
  by (cases m; cases c; cases d) simp_all

lemma filter_unhandled:
  "filter (\<lambda>f. ftype f = Unhandled)
     ((if c then [\<lparr>ftype = Handled, froute = a, ferror = b\<rparr>] else [])
      @ (if d then (case m of Returns h \<Rightarrow> []
                    | Throws x \<Rightarrow> [\<lparr>ftype = Unhandled, froute = a, ferror = b'\<rparr>])
         else []))
   = (if d then (case m of Returns h \<Rightarrow> []
                 | Throws x \<Rightarrow> [\<lparr>ftype = Unhandled, froute = a, ferror = b'\<rparr>])
      else [])"
  by (cases m; cases c; cases d) simp_all

lemma length_route_records:
  "length ((if c then [a] else [])
      @ (if d then (case m of Returns h \<Rightarrow> [] | Throws x \<Rightarrow> [b]) else [])) \<le> 2"
  by (cases m; cases c; cases d) simp_all

lemma handled_part:
  assumes "renderRoute e (route r) (payload r) = Returns res"
  shows "filter (\<lambda>f. ftype f = Handled) (route_errors e r)
        = (if truthy (error res)
           then [\<lparr>ftype = Handled, froute = route r, ferror = error res\<rparr>] else [])"
  unfolding route_errors_returns [OF assms(1)] by (rule filter_handled)

lemma unhandled_part:
  assumes "renderRoute e (route r) (payload r) = Returns res"
  shows "filter (\<lambda>f. ftype f = Unhandled) (route_errors e r)
        = (if truthy (generate_minify e)
           then (case minify e (html res) of
                   Returns h \<Rightarrow> []
                 | Throws x \<Rightarrow> [\<lparr>ftype = Unhandled, froute = route r,
                                 ferror = JError (minify_message (html res))\<rparr>])
           else [])"
  unfolding route_errors_returns [OF assms(1)] by (rule filter_unhandled)

lemma write_after_minify_throw:
  assumes "renderRoute e (route r) (payload r) = Returns res"
    and "truthy (generate_minify e)"
    and "minify e (html res) = Throws x"
  shows "route_writes e r
         = [\<lparr>by_route = route r, wfile = out_path (distPath e) (route r), wcontent = html res\<rparr>]"
  unfolding route_writes_returns [OF assms(1)]
  by (simp only: assms(2,3) if_True outcome.case)

lemma filter_route_kind:
  "filter (\<lambda>f. froute f = p \<and> ftype f = k) xs
   = filter (\<lambda>f. ftype f = k) (filter (\<lambda>f. froute f = p) xs)"
  by simp

text \<open>
  Claim C6. A route whose render call returns a result with a truthy \<open>error\<close> gets exactly
  one record of type \<open>handled\<close>, carrying that error, and the returned markup goes through
  the remaining steps: it is written to the route's file, minified when minification is
  configured and succeeds.
\<close>

theorem handled_error_still_written:
  assumes "prepare e = Returns u"
    and "fst (resolve_routes e init_state) = Returns g"
    and "r \<in> set (merged_routes e g)"
    and "renderRoute e (route r) (payload r) = Returns res"
    and "truthy (error res)"
  shows "filter (\<lambda>f. froute f = route r \<and> ftype f = Handled) (errors (snd (generate e)))
           = [\<lparr>ftype = Handled, froute = route r, ferror = error res\<rparr>]
         \<and> filter (\<lambda>w. by_route w = route r) (written (snd (generate e)))
           = [\<lparr>by_route = route r, wfile = out_path (distPath e) (route r),
               wcontent = (if truthy (generate_minify e)
                           then (case minify e (html res) of
                                   Returns h \<Rightarrow> h | Throws x \<Rightarrow> html res)
                           else html res)\<rparr>]"
proof -
  have "filter (\<lambda>f. ftype f = Handled) (route_errors e r)
        = [\<lparr>ftype = Handled, froute = route r, ferror = error res\<rparr>]"
    unfolding handled_part [OF assms(4)] by (simp only: assms(5) if_True)
  then have "filter (\<lambda>f. froute f = route r \<and> ftype f = Handled) (errors (snd (generate e)))
        = [\<lparr>ftype = Handled, froute = route r, ferror = error res\<rparr>]"
    by (simp only: filter_route_kind errors_of_route [OF assms(1,2,3)])
  moreover have "filter (\<lambda>w. by_route w = route r) (written (snd (generate e)))
        = [\<lparr>by_route = route r, wfile = out_path (distPath e) (route r),
            wcontent = (if truthy (generate_minify e)
                        then (case minify e (html res) of
                                Returns h \<Rightarrow> h | Throws x \<Rightarrow> html res)
                        else html res)\<rparr>]"
    by (simp only: writes_of_route [OF assms(1,2,3)] route_writes_returns [OF assms(4)])
  ultimately show ?thesis by (simp only: simp_thms)
qed

theorem handled_error_still_written_witness:
  "prepare env_demo = Returns ()
   \<and> fst (resolve_routes env_demo init_state) = Returns [ItemObject ''/x'' (JNum 1)]
   \<and> \<lparr>route = ''/about'', payload = JNull\<rparr>
       \<in> set (merged_routes env_demo [ItemObject ''/x'' (JNum 1)])
   \<and> renderRoute env_demo ''/about'' JNull
       = Returns \<lparr>html = ''<h1> about'', error = JStr ''partial''\<rparr>
   \<and> truthy (JStr ''partial'')
   \<and> filter (\<lambda>f. froute f = ''/about'' \<and> ftype f = Handled) (errors (snd (generate env_demo)))
       = [\<lparr>ftype = Handled, froute = ''/about'', ferror = JStr ''partial''\<rparr>]
   \<and> filter (\<lambda>w. by_route w = ''/about'') (written (snd (generate env_demo)))
       = [\<lparr>by_route = ''/about'', wfile = ''/dist/about/index.html'',
           wcontent = ''<h1>about''\<rparr>]"
proof -
  let ?r = "\<lparr>route = ''/about'', payload = JNull\<rparr>"
  let ?res = "\<lparr>html = ''<h1> about'', error = JStr ''partial''\<rparr>"
  have h1: "prepare env_demo = Returns ()" by (simp add: env_demo_def)
  have h4: "renderRoute env_demo (route ?r) (payload ?r) = Returns ?res"
    by (simp add: env_demo_def demo_render_def)
  have h5: "truthy (error ?res)" by simp
  note t = handled_error_still_written [OF h1 demo_resolve demo_member(2) h4 h5]
  from t have e: "filter (\<lambda>f. froute f = ''/about'' \<and> ftype f = Handled)
                    (errors (snd (generate env_demo)))
       = [\<lparr>ftype = Handled, froute = ''/about'', ferror = JStr ''partial''\<rparr>]"
    by simp
  from t have w: "filter (\<lambda>w. by_route w = ''/about'') (written (snd (generate env_demo)))
       = [\<lparr>by_route = ''/about'', wfile = ''/dist/about/index.html'',
           wcontent = ''<h1>about''\<rparr>]"
    by (simp add: env_demo_def demo_minify_def demo_paths)
  show ?thesis
    using h1 demo_resolve demo_member(2) h4 e w by simp
qed


lemma static_only_routes:
  "decorateWithPayloads [] [''/z''] = [\<lparr>route = ''/z'', payload = JNull\<rparr>]"
  "decorateWithPayloads [] [''/y''] = [\<lparr>route = ''/y'', payload = JNull\<rparr>]"
  "decorateWithPayloads [] [''/''] = [\<lparr>route = ''/'', payload = JNull\<rparr>]"
  by (simp_all add: decorateWithPayloads_def obj_assign_def js_values_def own_entries_def
      is_array_index_def is_digit_def)


lemma env_y_run:
  "prepare env_y = Returns ()"
  "fst (resolve_routes env_y init_state) = Returns []"
  "merged_routes env_y [] = [\<lparr>route = ''/y'', payload = JNull\<rparr>]"
  by (simp_all add: env_y_def resolve_routes_def merged_routes_def static_only_routes)



lemma length_kind_le_one:
  "length (filter (\<lambda>f. ftype f = k) (route_errors e r)) \<le> 1"
proof (cases "renderRoute e (route r) (payload r)")
  case (Throws err)
  show ?thesis by (simp add: route_errors_throws [OF Throws])
next
  case (Returns res)
  show ?thesis
  proof (cases k)
    case Handled
    show ?thesis
      unfolding Handled handled_part [OF Returns] by (cases "truthy (error res)") simp_all
  next
    case Unhandled
    show ?thesis
      unfolding Unhandled unhandled_part [OF Returns]
      by (cases "minify e (html res)"; cases "truthy (generate_minify e)") simp_all
  qed
qed

lemma length_route_errors: "length (route_errors e r) \<le> 2"
proof (cases "renderRoute e (route r) (payload r)")
  case (Throws err)
  show ?thesis by (simp add: route_errors_throws [OF Throws])
next
  case (Returns res)
  show ?thesis
    unfolding route_errors_returns [OF Returns] by (rule length_route_records)
qed

text \<open>
  Claim C3, as amended. A route of the work list gets at most one record of type
  \<open>handled\<close> and at most one of type \<open>unhandled\<close>, hence at most two records in a run;
  when its render call throws, the record of that throw is its only record.
\<close>

theorem failures_per_route:
  assumes "prepare e = Returns u"
    and "fst (resolve_routes e init_state) = Returns g"
    and "r \<in> set (merged_routes e g)"
  shows "length (filter (\<lambda>f. froute f = route r \<and> ftype f = Handled)
                   (errors (snd (generate e)))) \<le> 1
         \<and> length (filter (\<lambda>f. froute f = route r \<and> ftype f = Unhandled)
                     (errors (snd (generate e)))) \<le> 1
         \<and> length (filter (\<lambda>f. froute f = route r) (errors (snd (generate e)))) \<le> 2
         \<and> (\<forall>err. renderRoute e (route r) (payload r) = Throws err \<longrightarrow>
               filter (\<lambda>f. froute f = route r) (errors (snd (generate e)))
               = [\<lparr>ftype = Unhandled, froute = route r, ferror = err\<rparr>])"
proof -
  note per_route = errors_of_route [OF assms]
  have "length (filter (\<lambda>f. froute f = route r \<and> ftype f = Handled)
                  (errors (snd (generate e)))) \<le> 1"
    unfolding filter_route_kind per_route by (rule length_kind_le_one)
  moreover have "length (filter (\<lambda>f. froute f = route r \<and> ftype f = Unhandled)
                  (errors (snd (generate e)))) \<le> 1"
    unfolding filter_route_kind per_route by (rule length_kind_le_one)
  moreover have "length (filter (\<lambda>f. froute f = route r) (errors (snd (generate e)))) \<le> 2"
    unfolding per_route by (rule length_route_errors)
  moreover have "\<forall>err. renderRoute e (route r) (payload r) = Throws err \<longrightarrow>
               filter (\<lambda>f. froute f = route r) (errors (snd (generate e)))
               = [\<lparr>ftype = Unhandled, froute = route r, ferror = err\<rparr>]"
    unfolding per_route by (simp add: route_errors_throws)
  ultimately show ?thesis by (simp only: simp_thms)
qed

theorem failures_per_route_witness:
  "prepare env_demo = Returns ()
   \<and> fst (resolve_routes env_demo init_state) = Returns [ItemObject ''/x'' (JNum 1)]
   \<and> \<lparr>route = ''/x'', payload = JNum 1\<rparr>
       \<in> set (merged_routes env_demo [ItemObject ''/x'' (JNum 1)])
   \<and> renderRoute env_demo ''/x'' (JNum 1) = Throws (JError ''boom'')
   \<and> length (filter (\<lambda>f. froute f = ''/x'' \<and> ftype f = Handled)
               (errors (snd (generate env_demo)))) \<le> 1
   \<and> length (filter (\<lambda>f. froute f = ''/x'' \<and> ftype f = Unhandled)
               (errors (snd (generate env_demo)))) \<le> 1
   \<and> length (filter (\<lambda>f. froute f = ''/x'') (errors (snd (generate env_demo)))) \<le> 2
   \<and> filter (\<lambda>f. froute f = ''/x'') (errors (snd (generate env_demo)))
       = [\<lparr>ftype = Unhandled, froute = ''/x'', ferror = JError ''boom''\<rparr>]"
proof -
  let ?r = "\<lparr>route = ''/x'', payload = JNum 1\<rparr>"
  have h1: "prepare env_demo = Returns ()" by (simp add: env_demo_def)
  have h4: "renderRoute env_demo (route ?r) (payload ?r) = Throws (JError ''boom'')"
    by (simp add: env_demo_def demo_render_def)
  have sel: "route ?r = ''/x''" "payload ?r = JNum 1" by simp_all
  note t = failures_per_route [OF h1 demo_resolve demo_member(1), unfolded sel]
  note c1 = t [THEN conjunct1]
  note c2 = t [THEN conjunct2, THEN conjunct1]
  note c3 = t [THEN conjunct2, THEN conjunct2, THEN conjunct1]
  note c4 = t [THEN conjunct2, THEN conjunct2, THEN conjunct2, rule_format, OF h4 [unfolded sel]]
  show ?thesis
    by (intro conjI h1 demo_resolve demo_member(1) h4 [unfolded sel] c1 c2 c3 c4)
qed

text \<open>
  The claim as stated fails in \<open>env_y\<close>: the in-band error of \<open>/y\<close> is recorded, the route
  goes on, and the failure of its minification is recorded too.
\<close>

theorem failures_per_route_counterexample:
  "errors (snd (generate env_y))
     = [\<lparr>ftype = Handled, froute = ''/y'', ferror = JObject 1\<rparr>,
        \<lparr>ftype = Unhandled, froute = ''/y'', ferror = JError (minify_message ''<p>'')\<rparr>]"
proof -
  let ?r = "\<lparr>route = ''/y'', payload = JNull\<rparr>"
  have h4: "renderRoute env_y (route ?r) (payload ?r)
            = Returns \<lparr>html = ''<p>'', error = JObject 1\<rparr>"
    by (simp add: env_y_def)
  show ?thesis
    by (simp add: generate_success(1) [OF env_y_run(1,2)] env_y_run(3)
        route_errors_returns [OF h4]) (simp add: env_y_def)
qed

lemma concat_slices: "concat (slices xs) = xs"
proof (induction xs rule: length_induct)
  case (1 xs)
  show ?case
  proof (cases "xs = []")
    case True
    then show ?thesis by (simp add: slices_Nil)
  next
    case False
    then have "length (drop 500 xs) < length xs" by simp
    then have "concat (slices (drop 500 xs)) = drop 500 xs" using 1 by blast
    then show ?thesis by (simp add: slices_step [OF False])
  qed
qed











lemma demo_work_list:
  "merged_routes env_demo [ItemObject ''/x'' (JNum 1)]
   = [\<lparr>route = ''/'', payload = JNull\<rparr>, \<lparr>route = ''/about'', payload = JNull\<rparr>,
      \<lparr>route = ''/x'', payload = JNum 1\<rparr>]"
proof -
  have "list_all plain_key [''/'', ''/about'']"
    and "list_all plain_key (map item_path [ItemObject ''/x'' (JNum 1)])"
    by (simp_all add: leading_slash_plain)
  then show ?thesis
    by (simp add: merged_routes_def env_demo_def decorate_plain merged_payload_def js_or_def)
qed


section \<open>The work list of a run\<close>

lemma generate_route_promisify:
  "generate_route (e\<lparr>promisifyRoute := y\<rparr>) r s = generate_route e r s"
  by (simp add: generate_route_def Let_def split: outcome.split prod.split)

lemma generate_loop_promisify:
  "generate_loop (e\<lparr>promisifyRoute := y\<rparr>) rs s = generate_loop e rs s"
proof (induction e rs s rule: generate_loop.induct)
  case (1 e routes s)
  show ?case
  proof (cases "routes = []")
    case True
    then show ?thesis by (simp add: generate_loop.simps)
  next
    case False
    have f: "generate_route (e\<lparr>promisifyRoute := y\<rparr>) = generate_route e"
      by (intro ext) (rule generate_route_promisify)
    show ?thesis
      using "1.IH" [OF False] False
      by (subst (1 2) generate_loop.simps) (simp add: f)
  qed
qed

lemma slices_single: "slices [x] = [[x]]"
  by (simp add: slices_step slices_Nil)

lemma hash_work_list: "router_mode e = ''hash'' \<Longrightarrow> merged_routes e [] = [\<lparr>route = ''/'', payload = JNull\<rparr>]"
  by (simp add: merged_routes_def decorateWithPayloads_def obj_assign_def js_values_def
      own_entries_def is_array_index_def is_digit_def)

lemma report_line_promisify: "report_line (e\<lparr>promisifyRoute := y\<rparr>) f = report_line e f"
  by (simp add: report_line_def error_stack_def split: jsval.split)

lemma report_lines_promisify: "report_lines (e\<lparr>promisifyRoute := y\<rparr>) fs = report_lines e fs"
  by (induction fs) (simp_all add: report_line_promisify split: outcome.split)

lemma generate_hash:
  assumes "prepare e = Returns u" and "router_mode e = ''hash''"
  shows "snd (generate e) =
       (generate_loop e [\<lparr>route = ''/'', payload = JNull\<rparr>] init_state)\<lparr>unawaited :=
          unawaited (generate_loop e [\<lparr>route = ''/'', payload = JNull\<rparr>] init_state)
          @ [(path_join [distPath e, ''.nojekyll''], [])]\<rparr>"
proof -
  have r: "resolve_routes e init_state = (Returns [], init_state)"
    using assms(2) by (simp add: resolve_routes_def)
  show ?thesis
    unfolding generate_state [OF assms(1) r] hash_work_list [OF assms(2)] ..
qed

lemma generate_hash_promisify:
  assumes "prepare e = Returns u" and "router_mode e = ''hash''"
  shows "generate (e\<lparr>promisifyRoute := y\<rparr>) = generate e"
proof -
  have m: "merged_routes (e\<lparr>promisifyRoute := y\<rparr>) [] = merged_routes e []"
    by (simp add: merged_routes_def)
  show ?thesis
    using assms
    by (simp add: generate_def resolve_routes_def m generate_loop_promisify
        report_lines_promisify Let_def)
qed

text \<open>
  Claim C9. After a successful preparation: in hash mode the renderer is called once, for
  \<open>/\<close> with payload \<open>null\<close>, in one batch, \<open>promisifyRoute\<close> is not called, and the run
  does not depend on what that call would yield; in any other mode the work list is
  \<open>decorateWithPayloads\<close> applied to the resolved dynamic routes and the flattened static
  routes; and when the resolution fails its error is re-thrown, and the run ends with no
  render call, no batch, no write and no record.
\<close>

theorem hash_mode_and_resolution:
  assumes "prepare e = Returns u"
  shows "(router_mode e = ''hash'' \<longrightarrow>
            rendered (snd (generate e)) = [(''/'', JNull)]
            \<and> batches (snd (generate e)) = [[\<lparr>route = ''/'', payload = JNull\<rparr>]]
            \<and> resolved (snd (generate e)) = 0
            \<and> generate (e\<lparr>promisifyRoute := y\<rparr>) = generate e)
         \<and> (\<forall>g. router_mode e \<noteq> ''hash'' \<and> promisifyRoute e = Returns g \<longrightarrow>
               concat (batches (snd (generate e))) = decorateWithPayloads g (flatRoutes e)
               \<and> rendered (snd (generate e))
                 = map (\<lambda>r. (route r, payload r)) (decorateWithPayloads g (flatRoutes e))
               \<and> resolved (snd (generate e)) = 1)
         \<and> (\<forall>x. router_mode e \<noteq> ''hash'' \<and> promisifyRoute e = Throws x \<longrightarrow>
               fst (generate e) = Throws x
               \<and> rendered (snd (generate e)) = []
               \<and> written (snd (generate e)) = []
               \<and> batches (snd (generate e)) = []
               \<and> errors (snd (generate e)) = [])"
proof -
  have hash: "rendered (snd (generate e)) = [(''/'', JNull)]
            \<and> batches (snd (generate e)) = [[\<lparr>route = ''/'', payload = JNull\<rparr>]]
            \<and> resolved (snd (generate e)) = 0
            \<and> generate (e\<lparr>promisifyRoute := y\<rparr>) = generate e"
    if h: "router_mode e = ''hash''"
  proof -
    have "generate (e\<lparr>promisifyRoute := y\<rparr>) = generate e"
      by (rule generate_hash_promisify [OF assms h])
    then show ?thesis
      unfolding generate_hash [OF assms h]
      by (simp add: loop_rendered loop_batches loop_resolved slices_single init_state_def)
  qed
  have ok: "concat (batches (snd (generate e))) = decorateWithPayloads g (flatRoutes e)
               \<and> rendered (snd (generate e))
                 = map (\<lambda>r. (route r, payload r)) (decorateWithPayloads g (flatRoutes e))
               \<and> resolved (snd (generate e)) = 1"
    if h: "router_mode e \<noteq> ''hash''" and g: "promisifyRoute e = Returns g" for g
  proof -
    have r: "resolve_routes e init_state = (Returns g, init_state\<lparr>resolved := Suc 0\<rparr>)"
      using h g by (simp add: resolve_routes_def init_state_def)
    have m: "merged_routes e g = decorateWithPayloads g (flatRoutes e)"
      using h by (simp add: merged_routes_def)
    have "resolved (snd (generate e)) = 1"
      by (simp add: generate_state [OF assms r] loop_resolved)
    moreover have "fst (resolve_routes e init_state) = Returns g" by (simp add: r)
    ultimately show ?thesis
      using generate_success(3,4) [OF assms, of g] by (simp add: m concat_slices)
  qed
  have bad: "fst (generate e) = Throws x
               \<and> rendered (snd (generate e)) = []
               \<and> written (snd (generate e)) = []
               \<and> batches (snd (generate e)) = []
               \<and> errors (snd (generate e)) = []"
    if h: "router_mode e \<noteq> ''hash''" and x: "promisifyRoute e = Throws x" for x
    using h x by (simp add: generate_def assms resolve_routes_def init_state_def)
  show ?thesis
    using hash ok bad by blast
qed

theorem hash_mode_and_resolution_witness:
  "prepare env_hash = Returns () \<and> router_mode env_hash = ''hash''
   \<and> rendered (snd (generate env_hash)) = [(''/'', JNull)]
   \<and> batches (snd (generate env_hash)) = [[\<lparr>route = ''/'', payload = JNull\<rparr>]]
   \<and> resolved (snd (generate env_hash)) = 0
   \<and> generate (env_hash\<lparr>promisifyRoute := Throws (JError ''offline'')\<rparr>) = generate env_hash
   \<and> prepare env_demo = Returns () \<and> router_mode env_demo \<noteq> ''hash''
   \<and> promisifyRoute env_demo = Returns [ItemObject ''/x'' (JNum 1)]
   \<and> rendered (snd (generate env_demo)) = [(''/'', JNull), (''/about'', JNull), (''/x'', JNum 1)]
   \<and> resolved (snd (generate env_demo)) = 1
   \<and> prepare env_offline = Returns () \<and> router_mode env_offline \<noteq> ''hash''
   \<and> promisifyRoute env_offline = Throws (JError ''offline'')
   \<and> fst (generate env_offline) = Throws (JError ''offline'')
   \<and> rendered (snd (generate env_offline)) = []
   \<and> written (snd (generate env_offline)) = []"
proof -
  have a1: "prepare env_hash = Returns ()" and a2: "router_mode env_hash = ''hash''"
    by (simp_all add: env_hash_def env_demo_def)
  have b1: "prepare env_demo = Returns ()" and b2: "router_mode env_demo \<noteq> ''hash''"
    and b3: "promisifyRoute env_demo = Returns [ItemObject ''/x'' (JNum 1)]"
    by (simp_all add: env_demo_def)
  have c1: "prepare env_offline = Returns ()" and c2: "router_mode env_offline \<noteq> ''hash''"
    and c3: "promisifyRoute env_offline = Throws (JError ''offline'')"
    by (simp_all add: env_offline_def env_demo_def)
  note ta = hash_mode_and_resolution [OF a1, of "Throws (JError ''offline'')",
      THEN conjunct1, rule_format, OF a2]
  note tb = hash_mode_and_resolution [OF b1, THEN conjunct2, THEN conjunct1, rule_format,
      OF conjI [OF b2 b3]]
  note tc = hash_mode_and_resolution [OF c1, THEN conjunct2, THEN conjunct2, rule_format,
      OF conjI [OF c2 c3]]
  have w: "decorateWithPayloads [ItemObject ''/x'' (JNum 1)] (flatRoutes env_demo)
           = [\<lparr>route = ''/'', payload = JNull\<rparr>, \<lparr>route = ''/about'', payload = JNull\<rparr>,
              \<lparr>route = ''/x'', payload = JNum 1\<rparr>]"
    using demo_work_list by (simp add: merged_routes_def env_demo_def)
  have rb: "rendered (snd (generate env_demo))
            = [(''/'', JNull), (''/about'', JNull), (''/x'', JNum 1)]"
    using tb [THEN conjunct2, THEN conjunct1] unfolding w by simp
  show ?thesis
    by (intro conjI a1 a2 b1 b2 b3 c1 c2 c3 rb
        ta [THEN conjunct1] ta [THEN conjunct2, THEN conjunct1]
        ta [THEN conjunct2, THEN conjunct2, THEN conjunct1]
        ta [THEN conjunct2, THEN conjunct2, THEN conjunct2]
        tb [THEN conjunct2, THEN conjunct2]
        tc [THEN conjunct1] tc [THEN conjunct2, THEN conjunct1]
        tc [THEN conjunct2, THEN conjunct2, THEN conjunct1])
qed

section \<open>The output path\<close>

lemma split_sep_nonempty: "split_sep p \<noteq> []"
  by (induction p) (auto split: list.splits)

lemma split_sep_append:
  "split_sep (a @ CHR ''/'' # b) = split_sep a @ split_sep b"
proof (induction a)
  case Nil
  then show ?case by simp
next
  case (Cons c a)
  then show ?case
    using split_sep_nonempty [of a]
    by (cases "split_sep a") (auto split: list.splits)
qed

lemma split_sep_no_slash: "CHR ''/'' \<notin> set s \<Longrightarrow> split_sep s = [s]"
  by (induction s) auto

lemma split_sep_segments: "s \<in> set (split_sep p) \<Longrightarrow> CHR ''/'' \<notin> set s"
proof (induction p arbitrary: s)
  case Nil
  then show ?case by simp
next
  case (Cons c p)
  then show ?case
    using split_sep_nonempty [of p]
    by (cases "split_sep p") (auto split: if_splits)
qed

lemma split_join_sep:
  assumes "xs \<noteq> []" and "\<forall>s\<in>set xs. CHR ''/'' \<notin> set s"
  shows "split_sep (join_sep xs) = xs"
  using assms
proof (induction xs rule: join_sep.induct)
  case 1
  then show ?case by simp
next
  case (2 s)
  then show ?case by (simp add: split_sep_no_slash)
next
  case (3 s t ss)
  then show ?case
    by (simp add: split_sep_append split_sep_no_slash)
qed

lemma join_sep_snoc: "xs \<noteq> [] \<Longrightarrow> join_sep (xs @ [y]) = join_sep xs @ CHR ''/'' # y"
  by (induction xs rule: join_sep.induct) simp_all

lemma foldl_step_no_dotdot:
  assumes "''..'' \<notin> set xs"
  shows "foldl (normalize_step a) acc xs = acc @ filter (\<lambda>s. s \<noteq> [] \<and> s \<noteq> ''.'') xs"
  using assms
proof (induction xs arbitrary: acc)
  case Nil
  then show ?case by simp
next
  case (Cons x xs)
  then have "x \<noteq> ''..''" and "''..'' \<notin> set xs" by auto
  then show ?case
    using Cons.IH [of "normalize_step a acc x"]
    by (auto simp: normalize_step_def)
qed

lemma join_sep_append:
  "xs \<noteq> [] \<Longrightarrow> ys \<noteq> [] \<Longrightarrow> join_sep (xs @ ys) = join_sep xs @ CHR ''/'' # join_sep ys"
proof (induction xs rule: join_sep.induct)
  case 1
  then show ?case by simp
next
  case (2 s)
  then show ?case by (cases ys) simp_all
next
  case (3 s t ss)
  then show ?case by simp
qed

lemma join_sep_nonempty: "\<exists>s\<in>set zs. s \<noteq> [] \<Longrightarrow> join_sep zs \<noteq> []"
  by (induction zs rule: join_sep.induct) auto

lemma kept_segments: "s \<in> set (kept q) \<Longrightarrow> CHR ''/'' \<notin> set s \<and> s \<noteq> [] \<and> s \<noteq> ''.''"
  by (auto simp: kept_def dest: split_sep_segments)

lemma kept_has_nonempty:
  assumes "kept q \<noteq> []"
  shows "\<exists>s\<in>set (D @ kept q). s \<noteq> []"
proof -
  obtain x where x: "x \<in> set (kept q)"
    using assms by (cases "kept q") auto
  then have "x \<noteq> []" by (simp add: kept_segments)
  then show ?thesis using x by auto
qed

lemma normalize_under:
  assumes "dist \<noteq> []" and "q \<noteq> []" and "last q \<noteq> CHR ''/''"
    and "''..'' \<notin> set (split_sep q)" and "kept q \<noteq> []"
  shows "path_normalize (dist @ CHR ''/'' # q)
         = (if hd dist = CHR ''/'' then ''/'' else [])
           @ join_sep (foldl (normalize_step (hd dist \<noteq> CHR ''/'')) [] (split_sep dist) @ kept q)"
proof -
  let ?a = "hd dist \<noteq> CHR ''/''"
  let ?D = "foldl (normalize_step ?a) [] (split_sep dist)"
  have hd: "hd (dist @ CHR ''/'' # q) = hd dist" using assms(1) by simp
  have last: "last (dist @ CHR ''/'' # q) = last q" using assms(2) by simp
  have segs: "foldl (normalize_step ?a) [] (split_sep (dist @ CHR ''/'' # q)) = ?D @ kept q"
    by (simp add: split_sep_append foldl_step_no_dotdot [OF assms(4)] kept_def)
  have "\<exists>s\<in>set (?D @ kept q). s \<noteq> []"
    by (rule kept_has_nonempty [OF assms(5)])
  then have ne: "join_sep (?D @ kept q) \<noteq> []" by (rule join_sep_nonempty)
  show ?thesis
    using ne assms(3)
    by (simp add: path_normalize_def normalizeString_def Let_def hd last segs)
qed

lemma normalize_alone:
  assumes "q \<noteq> []" and "last q \<noteq> CHR ''/''"
    and "''..'' \<notin> set (split_sep q)" and "kept q \<noteq> []"
  shows "path_normalize q = (if hd q = CHR ''/'' then ''/'' else []) @ join_sep (kept q)"
proof -
  have segs: "foldl (normalize_step (hd q \<noteq> CHR ''/'')) [] (split_sep q) = kept q"
    by (simp add: foldl_step_no_dotdot [OF assms(3)] kept_def)
  have "\<exists>s\<in>set (kept q). s \<noteq> []"
    using kept_has_nonempty [OF assms(4), of "[]"] by simp
  then have ne: "join_sep (kept q) \<noteq> []" by (rule join_sep_nonempty)
  show ?thesis
    using ne assms(1,2)
    by (simp add: path_normalize_def normalizeString_def Let_def segs)
qed

lemma kept_append: "kept (a @ CHR ''/'' # b) = kept a @ kept b"
  by (simp add: kept_def split_sep_append)

lemma kept_join:
  assumes "xs \<noteq> []" and "\<forall>s\<in>set xs. CHR ''/'' \<notin> set s \<and> s \<noteq> [] \<and> s \<noteq> ''.''"
  shows "kept (join_sep xs) = xs" and "split_sep (join_sep xs) = xs"
proof -
  show s: "split_sep (join_sep xs) = xs"
    using assms by (simp add: split_join_sep)
  show "kept (join_sep xs) = xs"
    unfolding kept_def s using assms(2) by (simp add: filter_id_conv)
qed

lemma kept_index: "kept ''index.html'' = [''index.html'']" "kept ''//index.html'' = [''index.html'']"
  "kept ''/index.html'' = [''index.html'']"
  by (simp_all add: kept_def)

lemma inner_join:
  assumes "r \<noteq> []" and "''..'' \<notin> set (split_sep r)"
  shows "path_join [r, path_sep, ''index.html'']
         = (if hd r = CHR ''/'' then ''/'' else []) @ join_sep (kept r @ [''index.html''])"
proof -
  let ?q = "r @ CHR ''/'' # ''//index.html''"
  have j: "path_join [r, path_sep, ''index.html''] = path_normalize ?q"
    using assms(1) by (simp add: path_join_def path_sep_def)
  have 1: "?q \<noteq> []" and 2: "last ?q \<noteq> CHR ''/''" by simp_all
  have 3: "''..'' \<notin> set (split_sep ?q)"
    using assms(2) by (simp add: split_sep_append)
  have k: "kept ?q = kept r @ [''index.html'']"
    by (simp only: kept_append kept_index)
  then have 4: "kept ?q \<noteq> []" by simp
  have h: "hd ?q = hd r" using assms(1) by simp
  show ?thesis
    unfolding j normalize_alone [OF 1 2 3 4] h k ..
qed

lemma three_way_join:
  assumes "dist \<noteq> []" and "r \<noteq> []" and "''..'' \<notin> set (split_sep r)"
  shows "path_join [dist, r, ''index.html'']
         = (if hd dist = CHR ''/'' then ''/'' else [])
           @ join_sep (foldl (normalize_step (hd dist \<noteq> CHR ''/'')) [] (split_sep dist)
                       @ kept r @ [''index.html''])"
proof -
  let ?q = "r @ CHR ''/'' # ''index.html''"
  have j: "path_join [dist, r, ''index.html''] = path_normalize (dist @ CHR ''/'' # ?q)"
    using assms(1,2) by (simp add: path_join_def)
  have 2: "?q \<noteq> []" and 3: "last ?q \<noteq> CHR ''/''" by simp_all
  have 4: "''..'' \<notin> set (split_sep ?q)"
    using assms(3) by (simp add: split_sep_append)
  have k: "kept ?q = kept r @ [''index.html'']"
    by (simp only: kept_append kept_index)
  then have 5: "kept ?q \<noteq> []" by simp
  show ?thesis
    unfolding j normalize_under [OF assms(1) 2 3 4 5] k ..
qed

lemma join_sep_last:
  assumes "y \<noteq> []"
  shows "join_sep (xs @ [y]) \<noteq> [] \<and> last (join_sep (xs @ [y])) = last y"
proof (cases "xs = []")
  case True
  then show ?thesis using assms by simp
next
  case False
  then show ?thesis using assms by (simp add: join_sep_snoc)
qed

lemma nested_join:
  assumes "dist \<noteq> []" and "r \<noteq> []" and "''..'' \<notin> set (split_sep r)"
  shows "path_join [dist, path_join [r, path_sep, ''index.html'']]
         = (if hd dist = CHR ''/'' then ''/'' else [])
           @ join_sep (foldl (normalize_step (hd dist \<noteq> CHR ''/'')) [] (split_sep dist)
                       @ kept r @ [''index.html''])"
proof -
  let ?xs = "kept r @ [''index.html'']"
  let ?q = "(if hd r = CHR ''/'' then ''/'' else []) @ join_sep ?xs"
  have xs: "?xs \<noteq> []"
    "\<forall>s\<in>set ?xs. CHR ''/'' \<notin> set s \<and> s \<noteq> [] \<and> s \<noteq> ''.''"
    using kept_segments [of _ r] by auto
  have jl: "join_sep ?xs \<noteq> []" "last (join_sep ?xs) = CHR ''l''"
    using join_sep_last [of "''index.html''" "kept r"] by simp_all
  have 2: "?q \<noteq> []" using jl(1) by simp
  have 3: "last ?q \<noteq> CHR ''/''" using jl by simp
  have s: "split_sep ?q = (if hd r = CHR ''/'' then [[]] else []) @ ?xs"
    using kept_join(2) [OF xs] by simp
  have nd: "''..'' \<notin> set (kept r)"
    using assms(3) by (auto simp: kept_def)
  have 4: "''..'' \<notin> set (split_sep ?q)"
    unfolding s using nd by simp
  have "kept ?q = filter (\<lambda>s. s \<noteq> [] \<and> s \<noteq> ''.'') (split_sep ?q)"
    by (rule kept_def)
  also have "\<dots> = filter (\<lambda>s. s \<noteq> [] \<and> s \<noteq> ''.'') ?xs"
    unfolding s by simp
  also have "\<dots> = ?xs"
    using xs(2) by (simp only: filter_id_conv) blast
  finally have k: "kept ?q = ?xs" .
  then have 5: "kept ?q \<noteq> []" by simp
  have j: "path_join [dist, ?q] = path_normalize (dist @ CHR ''/'' # ?q)"
    using assms(1) 2 by (simp add: path_join_def)
  show ?thesis
    unfolding inner_join [OF assms(2,3)] j normalize_under [OF assms(1) 2 3 4 5] k ..
qed

lemma out_path_empty_route:
  assumes "dist \<noteq> []"
  shows "out_path dist [] = path_join [dist, [], ''index.html'']"
proof -
  have i: "path_join [[], path_sep, ''index.html''] = ''/index.html''"
    by (simp add: path_join_def path_sep_def path_normalize_def normalizeString_def
        normalize_step_def)
  have a: "path_join [dist, ''/index.html''] = path_normalize (dist @ CHR ''/'' # ''/index.html'')"
    using assms by (simp add: path_join_def)
  have b: "path_join [dist, [], ''index.html''] = path_normalize (dist @ CHR ''/'' # ''index.html'')"
    using assms by (simp add: path_join_def)
  have "path_normalize (dist @ CHR ''/'' # ''/index.html'')
        = path_normalize (dist @ CHR ''/'' # ''index.html'')"
    by (subst (1 2) normalize_under [OF assms]) (simp_all add: kept_index)
  then show ?thesis
    by (simp only: out_path_def i a b)
qed

lemma resolved_root:
  assumes "hd dist = CHR ''/''" and "last dist \<noteq> CHR ''/''" and "path_normalize dist = dist"
  shows "dist \<noteq> []"
    and "foldl (normalize_step False) [] (split_sep dist) \<noteq> []"
    and "dist = CHR ''/'' # join_sep (foldl (normalize_step False) [] (split_sep dist))"
proof -
  let ?D = "foldl (normalize_step False) [] (split_sep dist)"
  show ne: "dist \<noteq> []"
    using assms(3) by (auto simp: path_normalize_def)
  have n: "path_normalize dist = (if join_sep ?D = [] then ''/'' else CHR ''/'' # join_sep ?D)"
    using ne assms(1,2) by (simp add: path_normalize_def normalizeString_def Let_def)
  have j: "join_sep ?D \<noteq> []"
  proof
    assume "join_sep ?D = []"
    then have "dist = ''/''" using n assms(3) by simp
    then show False using assms(2) by simp
  qed
  then show "?D \<noteq> []" by auto
  show "dist = CHR ''/'' # join_sep ?D"
    using n j assms(3) by simp
qed

text \<open>
  Claim C8, as amended. For a non-empty output root and a route none of whose segments is
  \<open>..\<close>, the file of the route is \<open>join(distPath, route, 'index.html')\<close>. In particular,
  for an output root that is a normalized absolute path without a trailing separator (as
  \<open>resolve\<close> yields), the route \<open>/\<close> is written to \<open>distPath/index.html\<close> and the route
  \<open>/about\<close> to \<open>distPath/about/index.html\<close>.
\<close>

theorem out_path_rule:
  "(dist \<noteq> [] \<and> ''..'' \<notin> set (split_sep r) \<longrightarrow>
      out_path dist r = path_join [dist, r, ''index.html''])
   \<and> (hd dist = CHR ''/'' \<and> last dist \<noteq> CHR ''/'' \<and> path_normalize dist = dist \<longrightarrow>
        out_path dist ''/'' = dist @ ''/index.html''
        \<and> out_path dist ''/about'' = dist @ ''/about/index.html'')"
proof -
  have general: "out_path dist r = path_join [dist, r, ''index.html'']"
    if d: "dist \<noteq> []" and nd: "''..'' \<notin> set (split_sep r)"
  proof (cases "r = []")
    case True
    then show ?thesis using out_path_empty_route [OF d] by simp
  next
    case False
    show ?thesis
      unfolding out_path_def nested_join [OF d False nd] three_way_join [OF d False nd] ..
  qed
  have examples: "out_path dist ''/'' = dist @ ''/index.html''
        \<and> out_path dist ''/about'' = dist @ ''/about/index.html''"
    if h: "hd dist = CHR ''/''" and l: "last dist \<noteq> CHR ''/''" and n: "path_normalize dist = dist"
  proof -
    let ?D = "foldl (normalize_step False) [] (split_sep dist)"
    note root = resolved_root [OF h l n]
    have k: "kept ''/'' = []" "kept ''/about'' = [''about'']"
      by (simp_all add: kept_def)
    have "out_path dist ''/'' = CHR ''/'' # join_sep (?D @ [''index.html''])"
      unfolding out_path_def using nested_join [OF root(1), of "''/''"] h by (simp add: k)
    also have "\<dots> = CHR ''/'' # join_sep ?D @ ''/index.html''"
      by (simp add: join_sep_snoc [OF root(2)])
    also have "\<dots> = dist @ ''/index.html''"
      using root(3) by simp
    finally have a: "out_path dist ''/'' = dist @ ''/index.html''" .
    have "out_path dist ''/about'' = CHR ''/'' # join_sep (?D @ [''about'', ''index.html''])"
      unfolding out_path_def using nested_join [OF root(1), of "''/about''"] h by (simp add: k)
    also have "\<dots> = CHR ''/'' # join_sep ?D @ ''/about/index.html''"
      by (simp add: join_sep_append [OF root(2)])
    also have "\<dots> = dist @ ''/about/index.html''"
      using root(3) by simp
    finally have b: "out_path dist ''/about'' = dist @ ''/about/index.html''" .
    show ?thesis using a b by simp
  qed
  show ?thesis using general examples by blast
qed

theorem out_path_rule_witness:
  "''/dist'' \<noteq> [] \<and> ''..'' \<notin> set (split_sep ''/blog/post'')
   \<and> out_path ''/dist'' ''/blog/post'' = path_join [''/dist'', ''/blog/post'', ''index.html'']
   \<and> hd ''/dist'' = CHR ''/'' \<and> last ''/dist'' \<noteq> CHR ''/''
   \<and> path_normalize ''/dist'' = ''/dist''
   \<and> out_path ''/dist'' ''/'' = ''/dist/index.html''
   \<and> out_path ''/dist'' ''/about'' = ''/dist/about/index.html''"
proof -
  have a1: "''/dist'' \<noteq> []" and a2: "''..'' \<notin> set (split_sep ''/blog/post'')"
    by simp_all
  have b1: "hd ''/dist'' = CHR ''/''" and b2: "last ''/dist'' \<noteq> CHR ''/''"
    and b3: "path_normalize ''/dist'' = ''/dist''"
    by (simp_all add: path_normalize_def normalizeString_def normalize_step_def)
  note ta = out_path_rule [of "''/dist''" "''/blog/post''", THEN conjunct1, rule_format,
      OF conjI [OF a1 a2]]
  note tb = out_path_rule [of "''/dist''", THEN conjunct2, rule_format,
      OF conjI [OF b1 conjI [OF b2 b3]]]
  have c1: "out_path ''/dist'' ''/'' = ''/dist/index.html''"
    using tb [THEN conjunct1] by simp
  have c2: "out_path ''/dist'' ''/about'' = ''/dist/about/index.html''"
    using tb [THEN conjunct2] by simp
  show ?thesis
    by (intro conjI a1 a2 b1 b2 b3 ta c1 c2)
qed

text \<open>
  The claim as stated fails for a route with a \<open>..\<close> segment: line 111 normalizes
  \<open>route/index.html\<close> on its own, where an absolute route cannot climb above the root, so
  the file stays under the output root, while joining the three parts at once leaves it.
\<close>

theorem out_path_rule_counterexample:
  "out_path ''/dist'' ''/../x'' = ''/dist/x/index.html''
   \<and> path_join [''/dist'', ''/../x'', ''index.html''] = ''/x/index.html''"
  by (simp add: out_path_def path_join_def path_sep_def path_normalize_def normalizeString_def
      normalize_step_def)

end
